theory Spec2Isabelle
  imports Main "HOL-Library.Multiset"
begin

section \<open>The nugget catalog of rakosh\<close>

text \<open>
  A shallow embedding of the class \<^verbatim>\<open>NuggetCatalog\<close> (heading rewriting, the tree build,
  chunk aggregation, the ordered and the paged extraction).

  Conventions of the embedding.
  \<^item> A JavaScript string is a \<open>string\<close>; the text is taken to be ASCII, so that a
    \<open>char\<close> is one UTF-16 code unit and \<open>length\<close> is \<^verbatim>\<open>.length\<close>.
  \<^item> \<^verbatim>\<open>undefined\<close> is \<open>None\<close>; a thrown exception is \<open>Inl\<close> of an \<open>error\<close>.
  \<^item> The results of the two database queries (the cursors) are parameters.
  \<^item> Keys are not names of members of \<^verbatim>\<open>Object.prototype\<close>, so that the operator
    \<^verbatim>\<open>in\<close> and a property read on a plain object are a lookup in a finite map.
\<close>

subsection \<open>Strings and the heading pattern\<close>

definition NL :: char where
  "NL = CHR 0x0A"

definition HASH :: char where
  "HASH = CHR ''#''"

text \<open>The line terminators of the pattern language (\<^verbatim>\<open>.\<close> excludes them, \<^verbatim>\<open>^\<close> and \<^verbatim>\<open>$\<close>
  with the flag \<^verbatim>\<open>m\<close> look at them) and the white space of \<^verbatim>\<open>\s\<close>, within ASCII.\<close>

definition is_lt :: "char \<Rightarrow> bool" where
  "is_lt c = (c = CHR 0x0A \<or> c = CHR 0x0D)"

definition is_space :: "char \<Rightarrow> bool" where
  "is_space c = (c = CHR 0x09 \<or> c = CHR 0x0A \<or> c = CHR 0x0B \<or> c = CHR 0x0C
                 \<or> c = CHR 0x0D \<or> c = CHR 0x20)"

text \<open>
  One attempt of \<^verbatim>\<open>/^(#+)\s+(.+)$/\<close> at a position where \<^verbatim>\<open>^\<close> holds. The result is the
  number of hashes of group 1, the text of group 2 and the input left after the match.
  \<^verbatim>\<open>#+\<close> and \<^verbatim>\<open>\s+\<close> are greedy. When a character that is not white space follows, group 2 is
  the rest of that line. When the white space runs to the end of the input, \<^verbatim>\<open>\s+\<close> gives
  characters back until the one it gave back last is no line terminator: that character alone
  is group 2 (all that follow it are line terminators).
\<close>

definition match_heading :: "string \<Rightarrow> (nat \<times> string \<times> string) option" where
  "match_heading s =
     (let hs = takeWhile (\<lambda>c. c = HASH) s; r1 = dropWhile (\<lambda>c. c = HASH) s;
          ws = takeWhile is_space r1; r2 = dropWhile is_space r1
      in if hs = [] \<or> ws = [] then None
         else if r2 \<noteq> [] then
           Some (length hs, takeWhile (\<lambda>c. \<not> is_lt c) r2, dropWhile (\<lambda>c. \<not> is_lt c) r2)
         else (case dropWhile is_lt (rev (tl ws)) of
                 [] \<Rightarrow> None
               | c # _ \<Rightarrow> Some (length hs, [c], rev (takeWhile is_lt (rev (tl ws))))))"

text \<open>The input cut into the matches of the global pattern and the characters between them.\<close>

datatype piece = Lit char | Heading nat string

function pieces :: "bool \<Rightarrow> string \<Rightarrow> piece list" where
  "pieces bol [] = []"
| "pieces bol (c # cs) =
     (if bol then
        (case match_heading (c # cs) of
           Some (n, p2, r) \<Rightarrow> Heading n p2 # pieces False r
         | None \<Rightarrow> Lit c # pieces (is_lt c) cs)
      else Lit c # pieces (is_lt c) cs)"
  by pat_completeness auto
termination
proof -
  have shorter: "length r < length s" if a: "match_heading s = Some (n, p2, r)"
    for s n p2 r
  proof -
    define r1 where "r1 = dropWhile (\<lambda>c. c = HASH) s"
    define ws where "ws = takeWhile is_space r1"
    define r2 where "r2 = dropWhile is_space r1"
    have hs: "takeWhile (\<lambda>c. c = HASH) s \<noteq> []" and wsn: "ws \<noteq> []"
      using a by (auto simp: match_heading_def Let_def ws_def r1_def split: if_splits)
    have l1: "length r1 < length s"
      using hs unfolding r1_def
      by (metis length_dropWhile_le le_neq_implies_less takeWhile_dropWhile_id
          append_self_conv2 length_append add_cancel_right_left length_0_conv)
    have l2: "length ws + length r2 = length r1"
      unfolding ws_def r2_def by (metis length_append takeWhile_dropWhile_id)
    show ?thesis
    proof (cases "r2 = []")
      case False
      then have "r = dropWhile (\<lambda>c. \<not> is_lt c) r2"
        using a hs wsn by (auto simp: match_heading_def Let_def ws_def r1_def r2_def split: if_splits)
      then have "length r \<le> length r2" by (simp add: length_dropWhile_le)
      moreover have "0 < length ws" using wsn by simp
      ultimately show ?thesis using l1 l2 by linarith
    next
      case True
      then have "r = rev (takeWhile is_lt (rev (tl ws)))"
        using a hs wsn
        by (auto simp: match_heading_def Let_def ws_def r1_def r2_def split: if_splits list.splits)
      then have "length r \<le> length (tl ws)"
        by (metis length_rev length_takeWhile_le)
      then have "length r < length ws" using wsn by (cases ws) auto
      then show ?thesis using l1 l2 by linarith
    qed
  qed
  show ?thesis
    by (relation "measure (\<lambda>(b, s). length s)") (auto dest: shorter)
qed

text \<open>\<^verbatim>\<open>markdown.matchAll(HEADING_RE)\<close>: the groups of every match, in order.\<close>

fun heads :: "piece list \<Rightarrow> (nat \<times> string) list" where
  "heads [] = []"
| "heads (Lit c # ps) = heads ps"
| "heads (Heading n p2 # ps) = (n, p2) # heads ps"

definition matchAll :: "string \<Rightarrow> (nat \<times> string) list" where
  "matchAll markdown = heads (pieces True markdown)"

text \<open>\<^verbatim>\<open>markdown.replace(HEADING_RE, '')\<close>.\<close>

fun strip :: "piece list \<Rightarrow> string" where
  "strip [] = []"
| "strip (Lit c # ps) = c # strip ps"
| "strip (Heading n p2 # ps) = strip ps"

definition replace_empty :: "string \<Rightarrow> string" where
  "replace_empty markdown = strip (pieces True markdown)"

text \<open>
  \<^verbatim>\<open>markdown.replace(HEADING_RE, (match, p1, p2) => [newHeads[idx++], p2].join(' '))\<close>:
  the list argument is what is left of \<^verbatim>\<open>newHeads\<close> from \<^verbatim>\<open>idx\<close> on; \<^verbatim>\<open>join\<close> writes
  an element that is \<^verbatim>\<open>undefined\<close> as the empty string.
\<close>

fun replace_heads :: "piece list \<Rightarrow> string list \<Rightarrow> string" where
  "replace_heads [] newHeads = []"
| "replace_heads (Lit c # ps) newHeads = c # replace_heads ps newHeads"
| "replace_heads (Heading n p2 # ps) [] = CHR '' '' # p2 @ replace_heads ps []"
| "replace_heads (Heading n p2 # ps) (h # newHeads) =
     h @ CHR '' '' # p2 @ replace_heads ps newHeads"

subsection \<open>rewriteHeadings\<close>

definition MAX_LEVEL :: int where
  "MAX_LEVEL = 6"

text \<open>The last \<^verbatim>\<open>map\<close> over the levels, with the variable \<^verbatim>\<open>last\<close> it assigns
  (here \<open>lastl\<close>).\<close>

fun limit_increase :: "int \<Rightarrow> int list \<Rightarrow> int list" where
  "limit_increase lastl [] = []"
| "limit_increase lastl (l # ls) =
     (if l > lastl + 1 then lastl + 1 else l) # limit_increase l ls"

text \<open>The levels behind \<^verbatim>\<open>newHeads\<close>, before they are turned into strings of hashes;
  \<open>depth\<close> is the depth after the clamp, \<open>depths\<close> the numbers of hashes found.\<close>

definition newLevels :: "int \<Rightarrow> int list \<Rightarrow> int list" where
  "newLevels depth depths =
     limit_increase depth
       (map (\<lambda>l. if l < depth then depth else l)
         (map (\<lambda>l. if l > MAX_LEVEL then MAX_LEVEL else l)
           (map (\<lambda>l. l - hd depths + depth) depths)))"

definition rewriteHeadings :: "string \<Rightarrow> nat \<Rightarrow> string" where
  "rewriteHeadings markdown depth0 =
     (let depth = (if int depth0 > MAX_LEVEL then MAX_LEVEL else int depth0);
          matches = matchAll markdown
      in if length matches \<noteq> 0 then
           (let depths = map (\<lambda>m. int (fst m)) matches;
                newHeads = map (\<lambda>l. replicate (nat l) HASH) (newLevels depth depths)
            in replace_heads (pieces True markdown) newHeads)
         else markdown)"


subsection \<open>Nuggets, tree nodes and the catalog\<close>

text \<open>
  The errors: \<open>Error msg\<close> is \<^verbatim>\<open>new Error(msg)\<close>, \<open>AssertionError\<close> is what \<^verbatim>\<open>assert.ok\<close>
  throws, \<open>TypeError\<close> is a method call on \<^verbatim>\<open>undefined\<close>. \<open>ReferenceError\<close> is the class of
  that name; no operation of the catalog throws it.
\<close>

datatype error = Error string | AssertionError | TypeError | ReferenceError

text \<open>
  A nugget as the catalog reads it: \<^verbatim>\<open>_key\<close>, \<^verbatim>\<open>_id\<close>, \<^verbatim>\<open>type\<close>, \<^verbatim>\<open>label\<close>, \<^verbatim>\<open>order\<close>,
  \<^verbatim>\<open>body\<close> and \<^verbatim>\<open>nuggets\<close>; the last three may be absent (\<open>None\<close>). The class \<^verbatim>\<open>Nugget\<close> is not
  part of the sources; a nugget is taken to have no property \<^verbatim>\<open>depth\<close>, \<^verbatim>\<open>chunks\<close>
  or \<^verbatim>\<open>children\<close> of its own, so that the spread \<^verbatim>\<open>{ depth, chunks: [], ...nugget }\<close>
  keeps the two values written before it and \<^verbatim>\<open>tree.parse\<close> builds a node without children.
\<close>

record nugget =
  nkey :: string
  nid :: string
  ntype :: string
  label :: string
  norder :: "int option"
  body :: "string option"
  nuggets :: "string list option"

text \<open>The model of a tree node; \<open>nug\<close> is \<open>None\<close> when the spread object was
  \<^verbatim>\<open>undefined\<close> (the root, when the lookup has no \<^verbatim>\<open>adit\<close>).\<close>

record tmodel =
  depth :: nat
  chunks :: "string list"
  nug :: "nugget option"

datatype tnode = Node (model: tmodel) (children: "tnode list")

definition mkey :: "tmodel \<Rightarrow> string option" where
  "mkey m = map_option nkey (nug m)"

definition mbody :: "tmodel \<Rightarrow> string option" where
  "mbody m = (case nug m of None \<Rightarrow> None | Some n \<Rightarrow> body n)"

text \<open>A string that may be \<^verbatim>\<open>undefined\<close>, as a condition.\<close>

definition truthy :: "string option \<Rightarrow> bool" where
  "truthy b = (case b of None \<Rightarrow> False | Some s \<Rightarrow> s \<noteq> [])"

definition startsWith :: "string \<Rightarrow> string \<Rightarrow> bool" where
  "startsWith s p = (take (length p) s = p)"

record catalog =
  minLength :: int
  allNuggets :: "(string \<times> nugget) list"
  seamNuggetChunks :: "string \<rightharpoonup> string"
  initialised :: bool

text \<open>The constructor (the database handle and the filters only shape the queries).\<close>

definition NuggetCatalog :: "int \<Rightarrow> catalog" where
  "NuggetCatalog ml =
     \<lparr>minLength = ml, allNuggets = [], seamNuggetChunks = Map.empty, initialised = False\<rparr>"

text \<open>\<^verbatim>\<open>obj[k] = v\<close> on an object whose properties are listed in insertion order.\<close>

fun assign :: "string \<Rightarrow> 'a \<Rightarrow> (string \<times> 'a) list \<Rightarrow> (string \<times> 'a) list" where
  "assign k v [] = [(k, v)]"
| "assign k v ((k', v') # kvs) =
     (if k = k' then (k, v) # kvs else (k', v') # assign k v kvs)"

text \<open>\<^verbatim>\<open>init\<close>; the cursor is the list of the vertices returned, each read as a nugget.\<close>

definition init :: "nugget list \<Rightarrow> catalog \<Rightarrow> catalog" where
  "init cursor c =
     c\<lparr>allNuggets := fold (\<lambda>v al. assign (nkey v) v al) cursor (allNuggets c),
       initialised := True\<rparr>"

definition initCheck :: "catalog \<Rightarrow> error + unit" where
  "initCheck c = (if \<not> initialised c then Inl (Error ''must call init() first'') else Inr ())"

text \<open>The lookup is well formed when every nugget is stored once, under its own key, as
  \<^verbatim>\<open>init\<close> stores it.\<close>

definition wf_lookup :: "(string \<times> nugget) list \<Rightarrow> bool" where
  "wf_lookup al = (distinct (map fst al) \<and> list_all (\<lambda>(k, n). nkey n = k) al)"

subsection \<open>The tree library: references into a tree, walk, first, addChild, drop\<close>

text \<open>
  The catalog uses the package \<^verbatim>\<open>tree-model\<close>. A reference to a node inside a tree (the
  variable \<^verbatim>\<open>current\<close> of the tree build) is the node together with the frames above it,
  innermost first: the model of each ancestor with the siblings to the left and to the right
  of the way down. \<open>rebuild\<close> gives the root of the tree that a reference lies in.
\<close>

datatype frame = Frame (fmodel: tmodel) (lefts: "tnode list") (rights: "tnode list")

type_synonym noderef = "frame list \<times> tnode"

fun plug :: "frame \<Rightarrow> tnode \<Rightarrow> tnode" where
  "plug (Frame m ls rs) t = Node m (ls @ t # rs)"

fun rebuild :: "frame list \<Rightarrow> tnode \<Rightarrow> tnode" where
  "rebuild [] t = t"
| "rebuild (f # fs) t = rebuild fs (plug f t)"

definition hasChildren :: "tnode \<Rightarrow> bool" where
  "hasChildren n = (length (children n) > 0)"

text \<open>\<^verbatim>\<open>walk\<close> with a callback that never returns \<^verbatim>\<open>false\<close> visits the nodes in
  pre-order; \<^verbatim>\<open>all\<close> keeps those that satisfy the predicate.\<close>

fun preorder :: "tnode \<Rightarrow> tnode list" where
  "preorder (Node m cs) = Node m cs # concat (map preorder cs)"

definition models :: "tnode \<Rightarrow> tmodel list" where
  "models t = map model (preorder t)"

definition all_nodes :: "(tnode \<Rightarrow> bool) \<Rightarrow> tnode \<Rightarrow> tnode list" where
  "all_nodes P t = filter P (preorder t)"

text \<open>\<^verbatim>\<open>node.first(n => P(n.model))\<close>: the first node in pre-order of the subtree of the
  referenced node, the node itself included, whose model satisfies \<open>P\<close>.\<close>

fun first :: "(tmodel \<Rightarrow> bool) \<Rightarrow> frame list \<Rightarrow> tnode \<Rightarrow> noderef option"
and first_in ::
  "(tmodel \<Rightarrow> bool) \<Rightarrow> frame list \<Rightarrow> tmodel \<Rightarrow> tnode list \<Rightarrow> tnode list \<Rightarrow> noderef option"
where
  "first P fs (Node m cs) = (if P m then Some (fs, Node m cs) else first_in P fs m [] cs)"
| "first_in P fs m ls [] = None"
| "first_in P fs m ls (c # rs) =
     (case first P (Frame m ls rs # fs) c of
        Some r \<Rightarrow> Some r
      | None \<Rightarrow> first_in P fs m (ls @ [c]) rs)"

text \<open>\<^verbatim>\<open>findInsertIndex\<close> of the package: the index of the first child that the comparator
  puts after the new element, or the number of children.\<close>

fun findInsertIndex :: "(tmodel \<Rightarrow> tmodel \<Rightarrow> int) \<Rightarrow> tmodel list \<Rightarrow> tmodel \<Rightarrow> nat" where
  "findInsertIndex cmp [] el = 0"
| "findInsertIndex cmp (a # arr) el =
     (if cmp a el > 0 then 0 else Suc (findInsertIndex cmp arr el))"

text \<open>\<^verbatim>\<open>node.addChild(child)\<close> with a comparator configured; it returns the child, here the
  reference to it.\<close>

fun addChild :: "(tmodel \<Rightarrow> tmodel \<Rightarrow> int) \<Rightarrow> noderef \<Rightarrow> tnode \<Rightarrow> noderef" where
  "addChild cmp (fs, Node m cs) child =
     (let index = findInsertIndex cmp (map model cs) (model child)
      in (Frame m (take index cs) (drop index cs) # fs, child))"

text \<open>\<^verbatim>\<open>tree.parse(model)\<close> for a model without children.\<close>

definition parse :: "tmodel \<Rightarrow> tnode" where
  "parse m = Node m []"

text \<open>\<^verbatim>\<open>nodes.forEach(n => n.drop())\<close> for the nodes that satisfy \<open>P\<close>: each is taken out
  of the children of its parent; \<^verbatim>\<open>drop\<close> does nothing on the root. \<open>P\<close> is read on the
  tree as it was when the nodes were collected.\<close>

fun drop_nodes :: "(tnode \<Rightarrow> bool) \<Rightarrow> tnode \<Rightarrow> tnode" where
  "drop_nodes P (Node m cs) = Node m (map (drop_nodes P) (filter (\<lambda>c. \<not> P c) cs))"


subsection \<open>The comparator\<close>

text \<open>
  Modelled from the spec: \<^verbatim>\<open>Nugget.compare\<close> of \<^verbatim>\<open>lib/nugget\<close>, which is not part of the
  sources. A node with a numeric order sorts before one without; two orders compare as
  numbers; two nodes without order compare by label in code-point order; ties are broken by
  key. The tree build below takes the comparator as a parameter; this one is used where a
  concrete build is evaluated.
\<close>

fun str_compare :: "string \<Rightarrow> string \<Rightarrow> int" where
  "str_compare [] [] = 0"
| "str_compare [] (b # bs) = - 1"
| "str_compare (a # as) [] = 1"
| "str_compare (a # as) (b # bs) =
     (if (of_char a :: nat) < of_char b then - 1
      else if (of_char b :: nat) < of_char a then 1
      else str_compare as bs)"

definition Nugget_compare :: "tmodel \<Rightarrow> tmodel \<Rightarrow> int" where
  "Nugget_compare a b =
     (let by_key = str_compare (case mkey a of None \<Rightarrow> [] | Some k \<Rightarrow> k)
                               (case mkey b of None \<Rightarrow> [] | Some k \<Rightarrow> k);
          by_label = str_compare (case nug a of None \<Rightarrow> [] | Some n \<Rightarrow> label n)
                                 (case nug b of None \<Rightarrow> [] | Some n \<Rightarrow> label n)
      in case (Option.bind (nug a) norder, Option.bind (nug b) norder) of
           (Some x, Some y) \<Rightarrow> (if x < y then - 1 else if y < x then 1 else by_key)
         | (Some x, None) \<Rightarrow> - 1
         | (None, Some y) \<Rightarrow> 1
         | (None, None) \<Rightarrow> (if by_label \<noteq> 0 then by_label else by_key))"

subsection \<open>getTree\<close>

text \<open>\<^verbatim>\<open>keys.split('|')\<close>.\<close>

fun split_bar :: "string \<Rightarrow> string list" where
  "split_bar [] = [] # []"
| "split_bar (c # cs) =
     (if c = CHR ''|'' then [] # split_bar cs
      else (case split_bar cs of [] \<Rightarrow> [c] # [] | w # ws \<Rightarrow> (c # w) # ws))"

text \<open>
  One round of the inner loop, for one key: the state is the reference \<^verbatim>\<open>current\<close> and
  the counter \<^verbatim>\<open>depth\<close>. \<^verbatim>\<open>assert.ok(nugget)\<close> throws when the lookup has no such key.
\<close>

definition getTree_key ::
  "(string \<times> nugget) list \<Rightarrow> (tmodel \<Rightarrow> tmodel \<Rightarrow> int) \<Rightarrow> noderef \<times> nat \<Rightarrow> string
     \<Rightarrow> error + noderef \<times> nat" where
  "getTree_key al cmp st key =
     (let current = fst st; d = snd st
      in case first (\<lambda>m. mkey m = Some key) (fst current) (snd current) of
           Some node \<Rightarrow> Inr (node, d + 1)
         | None \<Rightarrow>
             (case map_of al key of
                None \<Rightarrow> Inl AssertionError
              | Some nugget \<Rightarrow>
                  Inr (addChild cmp current
                         (parse \<lparr>depth = d, chunks = [], nug = Some nugget\<rparr>), d + 1)))"

fun getTree_keys ::
  "(string \<times> nugget) list \<Rightarrow> (tmodel \<Rightarrow> tmodel \<Rightarrow> int) \<Rightarrow> noderef \<times> nat \<Rightarrow> string list
     \<Rightarrow> error + noderef \<times> nat" where
  "getTree_keys al cmp st [] = Inr st"
| "getTree_keys al cmp st (key # keys) =
     (case getTree_key al cmp st key of
        Inl e \<Rightarrow> Inl e
      | Inr st' \<Rightarrow> getTree_keys al cmp st' keys)"

text \<open>The body of the outer loop for one element of the cursor: \<^verbatim>\<open>current = root\<close>,
  \<^verbatim>\<open>depth = 1\<close>, then the keys; the result is the root afterwards.\<close>

definition getTree_path ::
  "(string \<times> nugget) list \<Rightarrow> (tmodel \<Rightarrow> tmodel \<Rightarrow> int) \<Rightarrow> tnode \<Rightarrow> string \<Rightarrow> error + tnode" where
  "getTree_path al cmp root keys =
     (case getTree_keys al cmp (([], root), 1) (split_bar keys) of
        Inl e \<Rightarrow> Inl e
      | Inr st \<Rightarrow> Inr (rebuild (fst (fst st)) (snd (fst st))))"

fun getTree_paths ::
  "(string \<times> nugget) list \<Rightarrow> (tmodel \<Rightarrow> tmodel \<Rightarrow> int) \<Rightarrow> tnode \<Rightarrow> string list \<Rightarrow> error + tnode" where
  "getTree_paths al cmp root [] = Inr root"
| "getTree_paths al cmp root (keys # cursor) =
     (case getTree_path al cmp root keys of
        Inl e \<Rightarrow> Inl e
      | Inr root' \<Rightarrow> getTree_paths al cmp root' cursor)"

text \<open>\<^verbatim>\<open>getTree\<close>; \<open>cursor\<close> holds the field \<^verbatim>\<open>keys\<close> of each row of the query.\<close>

definition getTree ::
  "catalog \<Rightarrow> (tmodel \<Rightarrow> tmodel \<Rightarrow> int) \<Rightarrow> string list \<Rightarrow> error + tnode" where
  "getTree c cmp cursor =
     getTree_paths (allNuggets c) cmp
       (parse \<lparr>depth = 0, chunks = [], nug = map_of (allNuggets c) ''adit''\<rparr>) cursor"

subsection \<open>populateChunks\<close>

text \<open>\<^verbatim>\<open>getMd\<close>; \<^verbatim>\<open>join\<close> writes a body that is \<^verbatim>\<open>undefined\<close> as the empty string.\<close>

definition getMd :: "catalog \<Rightarrow> string \<Rightarrow> string \<Rightarrow> string" where
  "getMd c acc key =
     (case map_of (allNuggets c) key of
        None \<Rightarrow> acc
      | Some n \<Rightarrow> acc @ NL # (case body n of None \<Rightarrow> [] | Some b \<Rightarrow> b))"

text \<open>The seams are the nuggets with a property \<^verbatim>\<open>nuggets\<close> (an array is truthy, also
  when it is empty).\<close>

definition seams :: "catalog \<Rightarrow> nugget list" where
  "seams c = filter (\<lambda>s. nuggets s \<noteq> None) (map snd (allNuggets c))"

definition grouped :: "nugget \<Rightarrow> string list" where
  "grouped s = (case nuggets s of None \<Rightarrow> [] | Some ks \<Rightarrow> ks)"

definition seamChunk :: "catalog \<Rightarrow> nugget \<Rightarrow> string" where
  "seamChunk c seam = foldl (getMd c) (getMd c [] (nkey seam)) (grouped seam)"

text \<open>\<^verbatim>\<open>nugList\<close> after the first loop; \<^verbatim>\<open>writtenNugs\<close> has exactly its elements as keys.\<close>

definition nugList :: "catalog \<Rightarrow> string list" where
  "nugList c = concat (map (\<lambda>seam. nkey seam # grouped seam) (seams c))"

definition populateChunks :: "catalog \<Rightarrow> error + catalog" where
  "populateChunks c =
     (case initCheck c of
        Inl e \<Rightarrow> Inl e
      | Inr _ \<Rightarrow>
         (let chunks1 = fold (\<lambda>seam m. m(nkey seam \<mapsto> seamChunk c seam)) (seams c)
                          (seamNuggetChunks c);
              rest = filter (\<lambda>n. nkey n \<notin> set (nugList c)) (map snd (allNuggets c));
              chunks2 = fold (\<lambda>nugget m. case body nugget of
                                            None \<Rightarrow> m
                                          | Some b \<Rightarrow> if b = [] then m else m(nkey nugget \<mapsto> b))
                          rest chunks1
          in Inr (c\<lparr>seamNuggetChunks := chunks2\<rparr>)))"

subsection \<open>Extraction of one node\<close>

definition heading_for :: "nat \<Rightarrow> nugget \<Rightarrow> string" where
  "heading_for d n = replicate d HASH @ CHR '' '' # label n"

definition mdForExtract :: "catalog \<Rightarrow> string \<Rightarrow> nat \<Rightarrow> string option" where
  "mdForExtract c key d =
     (case map_of (allNuggets c) key of
        None \<Rightarrow> None
      | Some n \<Rightarrow>
         (let retMd =
                (case seamNuggetChunks c key of
                   Some ch \<Rightarrow> Some ch
                 | None \<Rightarrow>
                     if startsWith (nid n) ''passage'' then
                       (if truthy (body n) then body n else Some (heading_for d n @ [NL]))
                     else None)
          in if truthy retMd then
               (case retMd of
                  None \<Rightarrow> None
                | Some r \<Rightarrow>
                    if matchAll r = [] then Some (heading_for d n @ NL # NL # r) else Some r)
             else None))"

definition allowExtract :: "catalog \<Rightarrow> string \<Rightarrow> bool" where
  "allowExtract c markdown = (int (length (replace_empty markdown)) > minLength c)"

definition getChunk :: "catalog \<Rightarrow> string \<Rightarrow> nat \<Rightarrow> error + string option" where
  "getChunk c key d =
     (let md = mdForExtract c key d
      in if \<not> truthy md then Inr None
         else Inr (map_option (\<lambda>m. rewriteHeadings m d) md))"

text \<open>The argument that a model passes for \<^verbatim>\<open>node.model._key\<close>: a property name that is
  \<^verbatim>\<open>undefined\<close> reads as the string of that name.\<close>

definition key_arg :: "tmodel \<Rightarrow> string" where
  "key_arg m = (case mkey m of None \<Rightarrow> ''undefined'' | Some k \<Rightarrow> k)"

subsection \<open>getOrdered\<close>

text \<open>The part of the callback after the test for an empty passage leaf.\<close>

definition pushExtract :: "catalog \<Rightarrow> tnode \<Rightarrow> string list \<Rightarrow> string list" where
  "pushExtract c node orderedChunks =
     (let md = mdForExtract c (key_arg (model node)) (depth (model node))
      in case md of
           None \<Rightarrow> orderedChunks
         | Some m \<Rightarrow>
             if m \<noteq> [] \<and> allowExtract c m
             then orderedChunks @ [rewriteHeadings m (depth (model node))]
             else orderedChunks)"

text \<open>The callback of the walk; \<^verbatim>\<open>node.model._id.startsWith\<close> throws a \<^verbatim>\<open>TypeError\<close>
  when the model has no \<^verbatim>\<open>_id\<close>.\<close>

definition visitOrdered :: "catalog \<Rightarrow> tnode \<Rightarrow> string list \<Rightarrow> error + string list" where
  "visitOrdered c node orderedChunks =
     (if \<not> truthy (mbody (model node)) \<and> \<not> hasChildren node then
        (case nug (model node) of
           None \<Rightarrow> Inl TypeError
         | Some n \<Rightarrow>
             if startsWith (nid n) ''passage'' then Inr orderedChunks
             else Inr (pushExtract c node orderedChunks))
      else Inr (pushExtract c node orderedChunks))"

fun walkOrdered :: "catalog \<Rightarrow> tnode list \<Rightarrow> string list \<Rightarrow> error + string list" where
  "walkOrdered c [] orderedChunks = Inr orderedChunks"
| "walkOrdered c (node # nodes) orderedChunks =
     (case visitOrdered c node orderedChunks of
        Inl e \<Rightarrow> Inl e
      | Inr orderedChunks' \<Rightarrow> walkOrdered c nodes orderedChunks')"

definition getOrdered ::
  "catalog \<Rightarrow> (tmodel \<Rightarrow> tmodel \<Rightarrow> int) \<Rightarrow> string list \<Rightarrow> error + string list" where
  "getOrdered c cmp cursor =
     (case getTree c cmp cursor of
        Inl e \<Rightarrow> Inl e
      | Inr treeRoot \<Rightarrow> walkOrdered c (preorder treeRoot) [])"


subsection \<open>getPaged\<close>

text \<open>The test of the first walk, \<^verbatim>\<open>!node.hasChildren() && !('body' in node.model)\<close>.\<close>

definition noBodyLeaf :: "tnode \<Rightarrow> bool" where
  "noBodyLeaf node = (\<not> hasChildren node \<and> mbody (model node) = None)"

text \<open>The first walk: every node that is not such a leaf gets its extract pushed onto its
  chunks, when there is one and it is allowed.\<close>

fun fillChunks :: "catalog \<Rightarrow> tnode \<Rightarrow> tnode" where
  "fillChunks c (Node m cs) =
     Node (if noBodyLeaf (Node m cs) then m
           else (case mdForExtract c (key_arg m) (depth m) of
                   None \<Rightarrow> m
                 | Some md \<Rightarrow>
                     if md \<noteq> [] \<and> allowExtract c md then m\<lparr>chunks := chunks m @ [md]\<rparr> else m))
          (map (fillChunks c) cs)"

text \<open>The test of the collation walk for a node with model \<open>m\<close> under a parent with model
  \<open>pMod\<close>.\<close>

definition foldsUp :: "tmodel \<Rightarrow> tmodel \<Rightarrow> bool" where
  "foldsUp pMod m =
     (map_option ntype (nug pMod) = Some ''passage''
      \<and> Option.bind (nug pMod) nuggets = None
      \<and> map_option ntype (nug m) = Some ''nugget''
      \<and> length (chunks m) > 0)"

text \<open>
  The collation walk. It visits a node before the children of that node, so a node is tested
  with the chunks the first walk gave it; \<open>moved\<close> tells that the visit of the node itself
  has emptied its list. The chunks of the children that fold up arrive in the order of the
  children.
\<close>

fun collate :: "bool \<Rightarrow> tnode \<Rightarrow> tnode" where
  "collate moved (Node m cs) =
     Node (m\<lparr>chunks := (if moved then [] else chunks m)
                       @ concat (map (\<lambda>c. if foldsUp m (model c) then chunks (model c) else [])
                                     cs)\<rparr>)
          (map (\<lambda>c. collate (foldsUp m (model c)) c) cs)"

definition emptyLeaf :: "tnode \<Rightarrow> bool" where
  "emptyLeaf n = (\<not> hasChildren n \<and> length (chunks (model n)) = 0)"

text \<open>One round of the loop that removes the empty leaves.\<close>

definition pruneStep :: "tnode \<Rightarrow> tnode" where
  "pruneStep treeRoot = drop_nodes emptyLeaf treeRoot"

text \<open>The loop \<^verbatim>\<open>do { ... } while (len)\<close>; a run that never leaves the loop is \<open>None\<close>.\<close>

partial_function (option) pruneLoop :: "tnode \<Rightarrow> tnode option" where
  "pruneLoop treeRoot =
     (let emptyLeaves = all_nodes emptyLeaf treeRoot;
          len = length emptyLeaves;
          treeRoot' = pruneStep treeRoot
      in if len \<noteq> 0 then pruneLoop treeRoot' else Some treeRoot')"

declare pruneLoop.simps [code]

definition getPaged ::
  "catalog \<Rightarrow> (tmodel \<Rightarrow> tmodel \<Rightarrow> int) \<Rightarrow> string list \<Rightarrow> (error + tnode) option" where
  "getPaged c cmp cursor =
     (case getTree c cmp cursor of
        Inl e \<Rightarrow> Some (Inl e)
      | Inr treeRoot \<Rightarrow>
          map_option Inr
            (pruneLoop (collate False (drop_nodes noBodyLeaf (fillChunks c treeRoot)))))"


definition getSeamNuggetTree ::
  "catalog \<Rightarrow> (tmodel \<Rightarrow> tmodel \<Rightarrow> int) \<Rightarrow> string list \<Rightarrow> (error + tnode) option" where
  "getSeamNuggetTree c cmp cursor =
     (case populateChunks c of
        Inl e \<Rightarrow> Some (Inl e)
      | Inr c' \<Rightarrow> getPaged c' cmp cursor)"


subsection \<open>Predicates of the properties\<close>

text \<open>No node has two children with the same key.\<close>

fun uniq_children :: "tnode \<Rightarrow> bool" where
  "uniq_children (Node m cs) =
     (distinct (map (\<lambda>c. mkey (model c)) cs) \<and> list_all uniq_children cs)"

text \<open>No model on the way down and no model in a subtree to the left of the way satisfies
  \<open>P\<close>: the walk in pre-order reaches the referenced node before any match.\<close>

definition unmatched :: "(tmodel \<Rightarrow> bool) \<Rightarrow> frame list \<Rightarrow> bool" where
  "unmatched P g =
     list_all (\<lambda>f. \<not> P (fmodel f) \<and> list_all (\<lambda>l. list_all (\<lambda>x. \<not> P x) (models l)) (lefts f)) g"


text \<open>What \<^verbatim>\<open>populateChunks\<close> leaves recorded under a key (nothing when it throws), and the
  keys of a tree with their depths, in pre-order.\<close>

definition chunkAfterPopulate :: "catalog \<Rightarrow> string \<Rightarrow> string option" where
  "chunkAfterPopulate c key =
     (case populateChunks c of Inl e \<Rightarrow> None | Inr c' \<Rightarrow> seamNuggetChunks c' key)"

definition key_depths :: "tnode \<Rightarrow> (string option \<times> nat) list" where
  "key_depths t = map (\<lambda>m. (mkey m, depth m)) (models t)"

subsection \<open>Example data\<close>


definition ex_seam_cat :: catalog where
  "ex_seam_cat = init
     [\<lparr>nkey = ''adit'', nid = ''passage/adit'', ntype = ''passage'', label = ''Adit'',
        norder = None, body = Some ''# Adit'', nuggets = None\<rparr>,
      \<lparr>nkey = ''s'', nid = ''nugget/s'', ntype = ''nugget'', label = ''S'',
        norder = None, body = Some ''S-body'', nuggets = Some [''x'', ''y'']\<rparr>,
      \<lparr>nkey = ''x'', nid = ''nugget/x'', ntype = ''nugget'', label = ''X'',
        norder = None, body = Some ''X'', nuggets = None\<rparr>,
      \<lparr>nkey = ''y'', nid = ''nugget/y'', ntype = ''nugget'', label = ''Y'',
        norder = None, body = Some ''Y'', nuggets = None\<rparr>] (NuggetCatalog 0)"



definition ex_depth_cat :: catalog where
  "ex_depth_cat = init
     [\<lparr>nkey = ''adit'', nid = ''passage/adit'', ntype = ''passage'', label = ''Adit'',
        norder = None, body = None, nuggets = None\<rparr>,
      \<lparr>nkey = ''a'', nid = ''passage/a'', ntype = ''passage'', label = ''A'',
        norder = None, body = None, nuggets = None\<rparr>] (NuggetCatalog 0)"

definition ex_dup_cat :: catalog where
  "ex_dup_cat = init
     [\<lparr>nkey = ''adit'', nid = ''passage/adit'', ntype = ''passage'', label = ''Adit'',
        norder = None, body = None, nuggets = None\<rparr>,
      \<lparr>nkey = ''b'', nid = ''passage/b'', ntype = ''passage'', label = ''B'',
        norder = None, body = None, nuggets = None\<rparr>,
      \<lparr>nkey = ''k'', nid = ''passage/k'', ntype = ''passage'', label = ''K'',
        norder = None, body = None, nuggets = None\<rparr>,
      \<lparr>nkey = ''c'', nid = ''nugget/c'', ntype = ''nugget'', label = ''C'',
        norder = None, body = Some ''text'', nuggets = None\<rparr>] (NuggetCatalog 0)"

section \<open>Properties\<close>

lemmas heading_defs = matchAll_def match_heading_def NL_def HASH_def is_lt_def is_space_def

lemma models_Node [simp]: "models (Node m cs) = m # concat (map models cs)"
  by (simp add: models_def[abs_def] map_concat comp_def)

subsection \<open>Heading levels\<close>

text \<open>What does hold of the levels: each lies between the clamped depth and the maximum.\<close>

lemma limit_increase_bounds:
  "lo \<le> lastl \<Longrightarrow> \<forall>l\<in>set ls. lo \<le> l \<and> l \<le> hi \<Longrightarrow>
   \<forall>l\<in>set (limit_increase lastl ls). lo \<le> l \<and> l \<le> hi"
  by (induction ls arbitrary: lastl) auto

lemma newLevels_bounds:
  "0 \<le> d \<Longrightarrow> d \<le> MAX_LEVEL \<Longrightarrow> \<forall>l\<in>set (newLevels d ds). d \<le> l \<and> l \<le> MAX_LEVEL"
  unfolding newLevels_def by (rule limit_increase_bounds) auto

text \<open>
  Claim C1 (heading monotonicity: no final level exceeds the final level of the heading before
  it by more than 1, none is below the clamped depth, none is above 6). The code compares each
  level with the level of the heading before it as it was \<^emph>\<open>before\<close> the limit was applied
  (\<^verbatim>\<open>last = l\<close>, not \<^verbatim>\<open>last = ret\<close>). For the fragment with the headings \<^verbatim>\<open># A\<close>,
  \<^verbatim>\<open>### B\<close>, \<^verbatim>\<open>#### C\<close> at depth 1 the result has the levels 1, 2, 4: the third heading is
  two levels below the second.
\<close>

theorem rewriteHeadings_level_jump:
  "rewriteHeadings (''# A'' @ [NL] @ ''### B'' @ [NL] @ ''#### C'') 1
     = ''# A'' @ [NL] @ ''## B'' @ [NL] @ ''#### C''
   \<and> map fst (matchAll (''# A'' @ [NL] @ ''## B'' @ [NL] @ ''#### C'')) = [1, 2, 4]
   \<and> newLevels 1 [1, 3, 4] = [1, 2, 4]"
  by (simp add: rewriteHeadings_def heading_defs newLevels_def MAX_LEVEL_def numeral_eq_Suc)

subsection \<open>Before init\<close>

lemma split_bar_nonempty: "split_bar s \<noteq> []"
  by (induction s) (auto split: list.splits)

text \<open>
  Claim C4 (every retrieval operation called before \<^verbatim>\<open>init\<close> fails with an illegal-state
  error). Only \<^verbatim>\<open>populateChunks\<close> calls \<^verbatim>\<open>initCheck\<close>, which throws the error with the
  message \<^verbatim>\<open>must call init() first\<close>. On a catalog fresh from the
  constructor \<^verbatim>\<open>getChunk\<close> returns \<^verbatim>\<open>undefined\<close> without an error, and \<^verbatim>\<open>getOrdered\<close> fails
  with the assertion of the tree build (or, on an empty cursor, with a type error).
\<close>

theorem retrieval_before_init:
  "populateChunks (NuggetCatalog ml) = Inl (Error ''must call init() first'')
   \<and> getChunk (NuggetCatalog ml) key d = Inr None
   \<and> getOrdered (NuggetCatalog ml) cmp (keys # cursor) = Inl AssertionError
   \<and> getOrdered (NuggetCatalog ml) cmp [] = Inl TypeError"
proof -
  obtain k ks where s: "split_bar keys = k # ks"
    using split_bar_nonempty[of keys] by (cases "split_bar keys") auto
  have "getTree (NuggetCatalog ml) cmp (keys # cursor) = Inl AssertionError"
    by (simp add: getTree_def NuggetCatalog_def getTree_path_def s getTree_key_def parse_def mkey_def)
  then have 3: "getOrdered (NuggetCatalog ml) cmp (keys # cursor) = Inl AssertionError"
    by (simp add: getOrdered_def)
  have 4: "getOrdered (NuggetCatalog ml) cmp [] = Inl TypeError"
    by (simp add: getOrdered_def getTree_def NuggetCatalog_def parse_def visitOrdered_def
        mbody_def truthy_def hasChildren_def)
  have 1: "populateChunks (NuggetCatalog ml) = Inl (Error ''must call init() first'')"
    by (simp add: populateChunks_def initCheck_def NuggetCatalog_def)
  have 2: "getChunk (NuggetCatalog ml) key d = Inr None"
    by (simp add: getChunk_def mdForExtract_def NuggetCatalog_def truthy_def)
  from 1 2 3 4 show ?thesis by simp
qed

subsection \<open>The pruning loop\<close>

lemma self_in_preorder: "t \<in> set (preorder t)"
  by (cases t) simp

lemma all_nodes_Node:
  "all_nodes P (Node m cs) = [] \<longleftrightarrow> \<not> P (Node m cs) \<and> (\<forall>c\<in>set cs. all_nodes P c = [])"
  by (auto simp: all_nodes_def filter_empty_conv)

lemma drop_nodes_id: "all_nodes P t = [] \<Longrightarrow> drop_nodes P t = t"
proof (induction t)
  case (Node m cs)
  have sub: "all_nodes P c = []" if "c \<in> set cs" for c
    using Node.prems that by (simp add: all_nodes_Node)
  have nP: "\<not> P c" if "c \<in> set cs" for c
    using sub[OF that] self_in_preorder[of c] by (auto simp: all_nodes_def filter_empty_conv)
  have "filter (\<lambda>c. \<not> P c) cs = cs" using nP by (simp add: filter_id_conv)
  moreover have "map (drop_nodes P) cs = cs"
    using Node.IH sub by (simp add: map_idI)
  ultimately show ?case by simp
qed

lemma pruneLoop_Some:
  assumes "pruneLoop t = Some t'"
  shows "all_nodes emptyLeaf t' = []"
proof (rule pruneLoop.raw_induct[where P = "\<lambda>t t'. all_nodes emptyLeaf t' = []", OF _ assms])
  fix f t y
  assume IH: "\<And>x y. f x = Some y \<Longrightarrow> all_nodes emptyLeaf y = []"
    and eq: "(let emptyLeaves = all_nodes emptyLeaf t; len = length emptyLeaves;
                  treeRoot' = pruneStep t
              in if len \<noteq> 0 then f treeRoot' else Some treeRoot') = Some y"
  show "all_nodes emptyLeaf y = []"
  proof (cases "all_nodes emptyLeaf t = []")
    case True
    with eq have "pruneStep t = y" by (simp add: Let_def)
    moreover have "pruneStep t = t" using True by (simp add: pruneStep_def drop_nodes_id)
    ultimately show ?thesis using True by simp
  next
    case False
    with eq have "f (pruneStep t) = Some y" by (simp add: Let_def)
    then show ?thesis by (rule IH)
  qed
qed

text \<open>
  Claim C8 (the pruning is idempotent). When the loop of \<^verbatim>\<open>getPaged\<close> has ended with the
  tree \<open>t'\<close>, no empty leaf is left in \<open>t'\<close>, and one more round of the pruning step returns
  \<open>t'\<close> as it is.
\<close>

theorem prune_fixpoint:
  "pruneLoop t = Some t' \<Longrightarrow> all_nodes emptyLeaf t' = [] \<and> pruneStep t' = t'"
  using pruneLoop_Some[of t t'] by (simp add: pruneStep_def drop_nodes_id)

theorem prune_fixpoint_witness:
  "pruneLoop (Node \<lparr>depth = 0, chunks = [''x''], nug = None\<rparr>
               [Node \<lparr>depth = 1, chunks = [], nug = None\<rparr>
                  [Node \<lparr>depth = 2, chunks = [], nug = None\<rparr> []]])
     = Some (Node \<lparr>depth = 0, chunks = [''x''], nug = None\<rparr> [])
   \<and> all_nodes emptyLeaf (Node \<lparr>depth = 0, chunks = [''x''], nug = None\<rparr> []) = []
   \<and> pruneStep (Node \<lparr>depth = 0, chunks = [''x''], nug = None\<rparr> [])
       = Node \<lparr>depth = 0, chunks = [''x''], nug = None\<rparr> []"
proof -
  have h: "pruneLoop (Node \<lparr>depth = 0, chunks = [''x''], nug = None\<rparr>
                        [Node \<lparr>depth = 1, chunks = [], nug = None\<rparr>
                           [Node \<lparr>depth = 2, chunks = [], nug = None\<rparr> []]])
             = Some (Node \<lparr>depth = 0, chunks = [''x''], nug = None\<rparr> [])"
    by (simp add: pruneLoop.simps all_nodes_def emptyLeaf_def hasChildren_def pruneStep_def)
  show ?thesis using h prune_fixpoint[OF h] by simp
qed

text \<open>When does the loop return? A round that finds an empty leaf other than the root
  makes the tree smaller, and a node with a chunk is never dropped; a tree without any chunk
  is pruned down to its root, which stays.\<close>

lemma sum_filter_le:
  "(\<And>c. c \<in> set cs \<Longrightarrow> f c \<le> (g c :: nat)) \<Longrightarrow>
   sum_list (map f (filter Q cs)) \<le> sum_list (map g cs)"
  by (induction cs) (auto intro: add_mono trans_le_add2)

lemma sum_filter_less:
  assumes "\<And>c. c \<in> set cs \<Longrightarrow> f c \<le> (g c :: nat)"
    and "c \<in> set cs" and "(\<not> Q c \<and> 0 < g c) \<or> (Q c \<and> f c < g c)"
  shows "sum_list (map f (filter Q cs)) < sum_list (map g cs)"
  using assms
proof (induction cs)
  case Nil
  then show ?case by simp
next
  case (Cons a cs)
  have le: "sum_list (map f (filter Q cs)) \<le> sum_list (map g cs)"
    using Cons.prems(1) by (intro sum_filter_le) simp
  have fa: "f a \<le> g a" using Cons.prems(1) by simp
  show ?case
  proof (cases "c = a")
    case True
    with Cons.prems(3) le fa show ?thesis by auto
  next
    case False
    with Cons.prems have "sum_list (map f (filter Q cs)) < sum_list (map g cs)"
      by (intro Cons.IH) auto
    with fa show ?thesis by auto
  qed
qed

lemma drop_nodes_length_le: "length (preorder (drop_nodes P t)) \<le> length (preorder t)"
proof (induction t)
  case (Node m cs)
  have "sum_list (map (\<lambda>c. length (preorder (drop_nodes P c))) (filter (\<lambda>c. \<not> P c) cs))
        \<le> sum_list (map (\<lambda>c. length (preorder c)) cs)"
    using Node.IH by (intro sum_filter_le) simp
  then show ?case by (simp add: length_concat comp_def)
qed

lemma preorder_nonempty: "0 < length (preorder t)"
  by (cases t) simp

lemma drop_nodes_length_less:
  "c \<in> set (children t) \<Longrightarrow> n \<in> set (preorder c) \<Longrightarrow> P n \<Longrightarrow>
   length (preorder (drop_nodes P t)) < length (preorder t)"
proof (induction t arbitrary: c n)
  case (Node m cs)
  from Node.prems have c: "c \<in> set cs" by simp
  have le: "\<And>x. x \<in> set cs \<Longrightarrow> length (preorder (drop_nodes P x)) \<le> length (preorder x)"
    by (rule drop_nodes_length_le)
  have "(\<not> \<not> P c \<and> 0 < length (preorder c)) \<or>
        (\<not> P c \<and> length (preorder (drop_nodes P c)) < length (preorder c))"
  proof (cases "P c")
    case True
    then show ?thesis using preorder_nonempty[of c] by simp
  next
    case False
    obtain m' cs' where cc: "c = Node m' cs'" by (cases c)
    from Node.prems(2,3) False cc obtain c' where "c' \<in> set cs'" "n \<in> set (preorder c')"
      by auto
    with Node.IH[OF c, of c' n] Node.prems(3) cc False show ?thesis by simp
  qed
  from sum_filter_less[of cs "\<lambda>c. length (preorder (drop_nodes P c))"
        "\<lambda>c. length (preorder c)" c "\<lambda>c. \<not> P c", OF le c this]
  show ?case by (simp add: length_concat comp_def)
qed

lemma drop_nodes_keeps_chunks:
  "m \<in> set (models t) \<Longrightarrow> chunks m \<noteq> [] \<Longrightarrow> m \<in> set (models (drop_nodes emptyLeaf t))"
proof (induction t)
  case (Node m0 cs)
  show ?case
  proof (cases "m = m0")
    case True
    then show ?thesis by (simp add: models_def)
  next
    case False
    with Node.prems(1) obtain c where c: "c \<in> set cs" "m \<in> set (models c)"
      by (auto simp: models_def)
    have "\<not> emptyLeaf c"
    proof
      assume "emptyLeaf c"
      then obtain mc where "c = Node mc []" "chunks mc = []"
        by (cases c) (auto simp: emptyLeaf_def hasChildren_def)
      with c(2) Node.prems(2) show False by (simp add: models_def)
    qed
    moreover from Node.IH[OF c(1) c(2) Node.prems(2)]
    have "m \<in> set (models (drop_nodes emptyLeaf c))" .
    ultimately show ?thesis using c(1) by (auto simp: models_def)
  qed
qed

lemma pruneLoop_terminates:
  "\<exists>m\<in>set (models t). chunks m \<noteq> [] \<Longrightarrow> \<exists>t'. pruneLoop t = Some t'"
proof (induction "length (preorder t)" arbitrary: t rule: less_induct)
  case less
  show ?case
  proof (cases "all_nodes emptyLeaf t = []")
    case True
    then show ?thesis by (subst pruneLoop.simps) (simp add: Let_def)
  next
    case False
    then obtain n where n: "n \<in> set (preorder t)" "emptyLeaf n"
      by (auto simp: all_nodes_def filter_empty_conv)
    obtain m cs where t: "t = Node m cs" by (cases t)
    have "n \<noteq> t"
    proof
      assume "n = t"
      with n(2) t have "cs = []" "chunks m = []" by (auto simp: emptyLeaf_def hasChildren_def)
      with less.prems t show False by (simp add: models_def)
    qed
    with n(1) t obtain c where c: "c \<in> set (children t)" "n \<in> set (preorder c)" by auto
    from drop_nodes_length_less[where P = emptyLeaf, OF c n(2)]
    have lt: "length (preorder (pruneStep t)) < length (preorder t)" by (simp add: pruneStep_def)
    have "\<exists>m\<in>set (models (pruneStep t)). chunks m \<noteq> []"
      using less.prems drop_nodes_keeps_chunks by (auto simp: pruneStep_def)
    from less.hyps[OF lt this] obtain t' where "pruneLoop (pruneStep t) = Some t'" by blast
    with False show ?thesis by (subst pruneLoop.simps) (simp add: Let_def)
  qed
qed


lemma leaf_exists: "\<exists>n\<in>set (preorder t). \<not> hasChildren n"
proof (induction t)
  case (Node m cs)
  show ?case
  proof (cases cs)
    case Nil
    then show ?thesis by (simp add: hasChildren_def)
  next
    case (Cons c cs')
    with Node.IH[of c] show ?thesis by auto
  qed
qed

lemma models_drop_nodes_subset: "set (models (drop_nodes P t)) \<subseteq> set (models t)"
proof (induction t)
  case (Node m cs)
  show ?case
  proof
    fix x
    assume "x \<in> set (models (drop_nodes P (Node m cs)))"
    then consider "x = m" | c where "c \<in> set cs" "x \<in> set (models (drop_nodes P c))"
      by auto
    then show "x \<in> set (models (Node m cs))"
    proof cases
      case 1
      then show ?thesis by simp
    next
      case 2
      with Node.IH[OF 2(1)] have "x \<in> set (models c)" by blast
      with 2(1) show ?thesis by auto
    qed
  qed
qed

lemma pruneLoop_Some_chunk:
  assumes "pruneLoop t = Some t'"
  shows "\<exists>m\<in>set (models t). chunks m \<noteq> []"
proof (rule pruneLoop.raw_induct[where P = "\<lambda>t t'. \<exists>m\<in>set (models t). chunks m \<noteq> []",
        OF _ assms])
  fix f t y
  assume IH: "\<And>x y. f x = Some y \<Longrightarrow> \<exists>m\<in>set (models x). chunks m \<noteq> []"
    and eq: "(let emptyLeaves = all_nodes emptyLeaf t; len = length emptyLeaves;
                  treeRoot' = pruneStep t
              in if len \<noteq> 0 then f treeRoot' else Some treeRoot') = Some y"
  show "\<exists>m\<in>set (models t). chunks m \<noteq> []"
  proof (cases "all_nodes emptyLeaf t = []")
    case True
    from leaf_exists[of t] obtain n where n: "n \<in> set (preorder t)" "\<not> hasChildren n" by blast
    with True have "chunks (model n) \<noteq> []"
      by (auto simp: all_nodes_def filter_empty_conv emptyLeaf_def)
    with n(1) show ?thesis by (auto simp: models_def)
  next
    case False
    with eq have "f (pruneStep t) = Some y" by (simp add: Let_def)
    from IH[OF this] models_drop_nodes_subset[of emptyLeaf t]
    show ?thesis by (auto simp: pruneStep_def)
  qed
qed

lemma pruneLoop_None_iff:
  "pruneLoop t = None \<longleftrightarrow> (\<forall>m\<in>set (models t). chunks m = [])"
proof
  assume "pruneLoop t = None"
  with pruneLoop_terminates[of t] show "\<forall>m\<in>set (models t). chunks m = []" by auto
next
  assume a: "\<forall>m\<in>set (models t). chunks m = []"
  show "pruneLoop t = None"
  proof (cases "pruneLoop t")
    case None
    then show ?thesis .
  next
    case (Some t')
    from pruneLoop_Some_chunk[OF this] a show ?thesis by auto
  qed
qed

text \<open>
  Claim C9 (the pruning loop ends on every finite tree, also when the root is left as a
  childless node without chunks). It does not: the root is collected as an empty leaf, so
  \<^verbatim>\<open>len\<close> is 1, but \<^verbatim>\<open>drop\<close> does nothing on a root, and the next round finds the same
  tree. The loop returns exactly when some node of the tree has a chunk
  (\<open>pruneLoop_None_iff\<close>). On a root without children and without chunks it never returns; so
  \<^verbatim>\<open>getPaged\<close> never returns on a catalog whose walk leaves every node without a chunk, as
  for a cursor with the adit alone when the adit has no body.
\<close>

theorem pruneLoop_root_empty_leaf:
  "pruneLoop (Node (m\<lparr>chunks := []\<rparr>) []) = None
   \<and> getPaged ex_depth_cat Nugget_compare [''adit''] = None"
proof -
  have div: "pruneLoop (Node (m\<lparr>chunks := []\<rparr>) []) = None" for m
    by (simp add: pruneLoop_None_iff)
  have "getTree ex_depth_cat Nugget_compare [''adit''] =
          Inr (Node \<lparr>depth = 0, chunks = [], nug = map_of (allNuggets ex_depth_cat) ''adit''\<rparr> [])"
    by (simp add: getTree_def getTree_path_def getTree_key_def parse_def mkey_def
        ex_depth_cat_def init_def NuggetCatalog_def)
  then have "getPaged ex_depth_cat Nugget_compare [''adit''] = None"
    using div[of "\<lparr>depth = 0, chunks = [], nug = map_of (allNuggets ex_depth_cat) ''adit''\<rparr>"]
    by (simp add: getPaged_def noBodyLeaf_def hasChildren_def mbody_def
        ex_depth_cat_def init_def NuggetCatalog_def)
  with div show ?thesis by simp
qed


subsection \<open>populateChunks\<close>

lemmas ex_defs = ex_seam_cat_def init_def NuggetCatalog_def

lemma ex_seam_alist:
  "allNuggets ex_seam_cat =
     [(''adit'', \<lparr>nkey = ''adit'', nid = ''passage/adit'', ntype = ''passage'', label = ''Adit'',
        norder = None, body = Some ''# Adit'', nuggets = None\<rparr>),
      (''s'', \<lparr>nkey = ''s'', nid = ''nugget/s'', ntype = ''nugget'', label = ''S'',
        norder = None, body = Some ''S-body'', nuggets = Some [''x'', ''y'']\<rparr>),
      (''x'', \<lparr>nkey = ''x'', nid = ''nugget/x'', ntype = ''nugget'', label = ''X'',
        norder = None, body = Some ''X'', nuggets = None\<rparr>),
      (''y'', \<lparr>nkey = ''y'', nid = ''nugget/y'', ntype = ''nugget'', label = ''Y'',
        norder = None, body = Some ''Y'', nuggets = None\<rparr>)]"
  by (simp add: ex_defs)

lemma ex_seam_init: "initialised ex_seam_cat" "seamNuggetChunks ex_seam_cat = Map.empty" "minLength ex_seam_cat = 0"
  by (simp_all add: ex_defs)

text \<open>The lookup that \<^verbatim>\<open>init\<close> builds is well formed.\<close>

lemma assign_fst:
  "map fst (assign k v al) = (if k \<in> set (map fst al) then map fst al else map fst al @ [k])"
  by (induction al) (force split: if_splits)+

lemma assign_wf: "wf_lookup al \<Longrightarrow> wf_lookup (assign (nkey v) v al)"
proof (induction al)
  case Nil
  then show ?case by (simp add: wf_lookup_def)
next
  case (Cons a al)
  obtain k n where a: "a = (k, n)" by (cases a)
  from Cons.prems have w: "wf_lookup al" and k: "nkey n = k" "k \<notin> set (map fst al)"
    by (auto simp: wf_lookup_def a)
  show ?case
  proof (cases "nkey v = k")
    case True
    with Cons.prems show ?thesis by (auto simp: wf_lookup_def a)
  next
    case False
    from Cons.IH[OF w] have "wf_lookup (assign (nkey v) v al)" .
    moreover have "k \<notin> set (map fst (assign (nkey v) v al))"
      unfolding assign_fst using k(2) False by (auto split: if_splits)
    ultimately show ?thesis using False k(1) by (auto simp: wf_lookup_def a)
  qed
qed

lemma init_wf: "wf_lookup (allNuggets c) \<Longrightarrow> wf_lookup (allNuggets (init cursor c))"
proof -
  have "wf_lookup al \<Longrightarrow> wf_lookup (fold (\<lambda>v al. assign (nkey v) v al) cursor al)" for al
    by (induction cursor arbitrary: al) (auto intro: assign_wf)
  then show "wf_lookup (allNuggets c) \<Longrightarrow> wf_lookup (allNuggets (init cursor c))"
    by (simp add: init_def)
qed

lemma init_fresh_wf: "wf_lookup (allNuggets (init cursor (NuggetCatalog ml)))"
  by (rule init_wf) (simp add: NuggetCatalog_def wf_lookup_def)

lemma fold_upd_other:
  "k \<notin> f ` set xs \<Longrightarrow> fold (\<lambda>s m. m(f s \<mapsto> g s)) xs m0 k = m0 k"
  by (induction xs arbitrary: m0) auto

lemma fold_upd_in:
  "distinct (map f xs) \<Longrightarrow> s \<in> set xs \<Longrightarrow> fold (\<lambda>s m. m(f s \<mapsto> g s)) xs m0 (f s) = Some (g s)"
proof (induction xs arbitrary: m0)
  case Nil then show ?case by simp
next
  case (Cons a xs)
  have step: "fold (\<lambda>s m. m(f s \<mapsto> g s)) (a # xs) m0
                = fold (\<lambda>s m. m(f s \<mapsto> g s)) xs (m0(f a \<mapsto> g a))"
    by (simp del: fun_upd_apply)
  show ?case
  proof (cases "s = a")
    case True
    then have "f s \<notin> f ` set xs" using Cons.prems(1) by auto
    from fold_upd_other[OF this, of g "m0(f a \<mapsto> g a)"] True
    show ?thesis unfolding step by (simp del: fun_upd_apply add: fun_upd_same)
  next
    case False
    then have "s \<in> set xs" "distinct (map f xs)" using Cons.prems by auto
    from Cons.IH[OF this(2,1), of "m0(f a \<mapsto> g a)"]
    show ?thesis unfolding step .
  qed
qed

lemma fold_body_other:
  "k \<notin> nkey ` set xs \<Longrightarrow>
   fold (\<lambda>nugget m. case body nugget of None \<Rightarrow> m
                      | Some b \<Rightarrow> if b = [] then m else m(nkey nugget \<mapsto> b)) xs m0 k = m0 k"
  by (induction xs arbitrary: m0) (auto split: option.splits)

lemma wf_lookup_map_of:
  "wf_lookup al \<Longrightarrow> map_of al k = Some n \<Longrightarrow> nkey n = k \<and> n \<in> snd ` set al"
  by (force simp: wf_lookup_def list_all_iff dest: map_of_SomeD)


lemma wf_lookup_distinct_nkey:
  "wf_lookup al \<Longrightarrow> distinct (map nkey (map snd al))"
proof -
  assume w: "wf_lookup al"
  then have eq: "map (nkey \<circ> snd) al = map fst al"
    by (auto simp: wf_lookup_def list_all_iff)
  show ?thesis unfolding map_map eq using w by (simp add: wf_lookup_def)
qed

lemma populateChunks_seam:
  assumes "initialised c" "wf_lookup (allNuggets c)" "s \<in> set (seams c)"
  shows "\<exists>c'. populateChunks c = Inr c' \<and> seamNuggetChunks c' (nkey s) = Some (seamChunk c s)"
proof -
  have d: "distinct (map nkey (seams c))"
    using wf_lookup_distinct_nkey[OF assms(2)] by (simp add: seams_def distinct_map_filter)
  have in_list: "nkey s \<in> set (nugList c)" using assms(3) by (auto simp: nugList_def)
  have 1: "fold (\<lambda>seam m. m(nkey seam \<mapsto> seamChunk c seam)) (seams c) (seamNuggetChunks c) (nkey s)
           = Some (seamChunk c s)"
    by (rule fold_upd_in[OF d assms(3)])
  have 2: "nkey s \<notin> nkey ` set (filter (\<lambda>n. nkey n \<notin> set (nugList c)) (map snd (allNuggets c)))"
    using in_list by auto
  show ?thesis
    using assms(1) by (simp add: populateChunks_def initCheck_def Let_def fold_body_other[OF 2] 1)
qed

text \<open>
  Claim C6 (a composite \<open>S\<close> with the grouped keys \<open>x\<close>, \<open>y\<close> and the bodies \<^verbatim>\<open>S-body\<close>,
  \<^verbatim>\<open>X\<close>, \<^verbatim>\<open>Y\<close> gets exactly the chunk \<^verbatim>\<open>S-body\nX\nY\<close>). The chunk of the code starts with
  a newline: the seam body is itself joined onto the empty accumulator by \<^verbatim>\<open>getMd\<close>.
\<close>

theorem composite_chunk_counterexample:
  "chunkAfterPopulate ex_seam_cat ''s'' = Some (NL # ''S-body'' @ NL # ''X'' @ NL # ''Y'')
   \<and> chunkAfterPopulate ex_seam_cat ''s'' \<noteq> Some (''S-body'' @ NL # ''X'' @ NL # ''Y'')"
  by (simp add: chunkAfterPopulate_def populateChunks_def initCheck_def ex_seam_init
      ex_seam_alist Let_def seams_def nugList_def grouped_def seamChunk_def getMd_def NL_def)

text \<open>
  Claim C6 as amended: on an initialised catalog with a well-formed lookup, the chunk recorded
  under the key of the composite is a newline and its own body, then, for each grouped key in
  order, a newline and the body of that nugget.
\<close>

theorem composite_chunk:
  assumes "initialised c" and "wf_lookup (allNuggets c)"
    and "map_of (allNuggets c) k = Some s" and "nuggets s = Some [x, y]" and "body s = Some sb"
    and "map_of (allNuggets c) x = Some nx" and "body nx = Some xb"
    and "map_of (allNuggets c) y = Some ny" and "body ny = Some yb"
  shows "\<exists>c'. populateChunks c = Inr c'
              \<and> seamNuggetChunks c' k = Some (NL # sb @ NL # xb @ NL # yb)"
proof -
  from wf_lookup_map_of[OF assms(2,3)] have ks: "nkey s = k" and "s \<in> snd ` set (allNuggets c)"
    by auto
  then have seam: "s \<in> set (seams c)" using assms(4) by (auto simp: seams_def)
  have "seamChunk c s = NL # sb @ NL # xb @ NL # yb"
    using assms by (simp add: seamChunk_def grouped_def getMd_def ks)
  with populateChunks_seam[OF assms(1,2) seam] ks show ?thesis by simp
qed

theorem composite_chunk_witness:
  "initialised ex_seam_cat \<and> wf_lookup (allNuggets ex_seam_cat)
   \<and> (\<exists>c'. populateChunks ex_seam_cat = Inr c'
          \<and> seamNuggetChunks c' ''s'' = Some (NL # ''S-body'' @ NL # ''X'' @ NL # ''Y''))"
proof -
  have i: "initialised ex_seam_cat" by (simp add: ex_seam_init)
  have w: "wf_lookup (allNuggets ex_seam_cat)" by (simp add: ex_seam_alist wf_lookup_def)
  from composite_chunk[OF i w, of "''s''" _ "''x''" "''y''" "''S-body''" _ "''X''" _ "''Y''"]
  show ?thesis using i w by (simp add: ex_seam_alist)
qed



subsection \<open>The tree build\<close>

lemma ex_depth_alist:
  "allNuggets ex_depth_cat =
     [(''adit'', \<lparr>nkey = ''adit'', nid = ''passage/adit'', ntype = ''passage'', label = ''Adit'',
        norder = None, body = None, nuggets = None\<rparr>),
      (''a'', \<lparr>nkey = ''a'', nid = ''passage/a'', ntype = ''passage'', label = ''A'',
        norder = None, body = None, nuggets = None\<rparr>)]"
  by (simp add: ex_depth_cat_def init_def NuggetCatalog_def)

lemmas getTree_defs = getTree_def getTree_path_def getTree_key_def parse_def mkey_def
  Nugget_compare_def

lemma ex_dup_alist:
  "allNuggets ex_dup_cat =
     [(''adit'', \<lparr>nkey = ''adit'', nid = ''passage/adit'', ntype = ''passage'', label = ''Adit'',
        norder = None, body = None, nuggets = None\<rparr>),
      (''b'', \<lparr>nkey = ''b'', nid = ''passage/b'', ntype = ''passage'', label = ''B'',
        norder = None, body = None, nuggets = None\<rparr>),
      (''k'', \<lparr>nkey = ''k'', nid = ''passage/k'', ntype = ''passage'', label = ''K'',
        norder = None, body = None, nuggets = None\<rparr>),
      (''c'', \<lparr>nkey = ''c'', nid = ''nugget/c'', ntype = ''nugget'', label = ''C'',
        norder = None, body = Some ''text'', nuggets = None\<rparr>)]"
  by (simp add: ex_dup_cat_def init_def NuggetCatalog_def)

lemma rebuild_append: "rebuild (gs @ fs) t = rebuild fs (rebuild gs t)"
  by (induction gs arbitrary: t) auto

lemma model_plug [simp]: "model (plug f t) = fmodel f"
  by (cases f) simp

lemma model_rebuild: "model s = model s' \<Longrightarrow> model (rebuild fs s) = model (rebuild fs s')"
  by (induction fs arbitrary: s s') auto

lemma mset_models_plug:
  "mset (models (plug f s')) + mset (models s) = mset (models (plug f s)) + mset (models s')"
  by (cases f) (simp add: mset_concat)

lemma mset_models_rebuild:
  "mset (models (rebuild fs s')) + mset (models s) = mset (models (rebuild fs s)) + mset (models s')"
proof (induction fs arbitrary: s s')
  case Nil
  show ?case by simp
next
  case (Cons f fs)
  have "mset (models (rebuild fs (plug f s'))) + mset (models (plug f s)) + mset (models s)
        = mset (models (rebuild fs (plug f s))) + mset (models (plug f s')) + mset (models s)"
    using Cons.IH[of "plug f s'" "plug f s"] by simp
  also have "\<dots> = mset (models (rebuild fs (plug f s))) + mset (models (plug f s)) + mset (models s')"
    using mset_models_plug[of f s' s] by (simp add: add.assoc)
  finally show ?case by (simp add: ac_simps)
qed

lemma models_subset_rebuild: "set (models t) \<subseteq> set (models (rebuild fs t))"
proof (induction fs arbitrary: t)
  case Nil show ?case by simp
next
  case (Cons f fs)
  have "set (models t) \<subseteq> set (models (plug f t))" by (cases f) auto
  with Cons.IH[of "plug f t"] show ?case by auto
qed

lemma first_rebuild:
  "first P fs t = Some r \<Longrightarrow> rebuild (fst r) (snd r) = rebuild fs t"
  "first_in P fs m ls rs = Some r \<Longrightarrow> rebuild (fst r) (snd r) = rebuild fs (Node m (ls @ rs))"
  by (induction P fs t and P fs m ls rs rule: first_first_in.induct)
     (auto split: if_splits option.splits)

lemma first_None:
  "first P fs t = None \<Longrightarrow> \<forall>x\<in>set (models t). \<not> P x"
  "first_in P fs m ls rs = None \<Longrightarrow> \<forall>c\<in>set rs. \<forall>x\<in>set (models c). \<not> P x"
  by (induction P fs t and P fs m ls rs rule: first_first_in.induct)
     (auto split: if_splits option.splits)

lemma first_Some_P:
  "first P fs t = Some r \<Longrightarrow> P (model (snd r))"
  "first_in P fs m ls rs = Some r \<Longrightarrow> P (model (snd r))"
  by (induction P fs t and P fs m ls rs rule: first_first_in.induct)
     (auto split: if_splits option.splits)

text \<open>One key: the tree is left as it is, or it gains one leaf with the counter as depth.\<close>

lemma getTree_key_cases:
  assumes "getTree_key al cmp ((fs, t), d) k = Inr ((fs', t'), d')"
  shows "d' = d + 1 \<and> model (rebuild fs' t') = model (rebuild fs t) \<and>
         ((rebuild fs' t' = rebuild fs t \<and> first (\<lambda>m. mkey m = Some k) fs t = Some (fs', t')) \<or>
          (\<exists>n. map_of al k = Some n \<and> first (\<lambda>m. mkey m = Some k) fs t = None \<and>
               t' = Node \<lparr>depth = d, chunks = [], nug = Some n\<rparr> [] \<and>
               mset (models (rebuild fs' t')) =
                 mset (models (rebuild fs t)) + {#\<lparr>depth = d, chunks = [], nug = Some n\<rparr>#}))"
proof (cases "first (\<lambda>m. mkey m = Some k) fs t")
  case (Some r)
  with assms have r: "r = (fs', t')" and d: "d' = d + 1"
    by (auto simp: getTree_key_def)
  from first_rebuild(1)[OF Some] r have "rebuild fs' t' = rebuild fs t" by simp
  with d Some r show ?thesis by simp
next
  case None
  with assms obtain n where n: "map_of al k = Some n"
    and a: "addChild cmp (fs, t) (parse \<lparr>depth = d, chunks = [], nug = Some n\<rparr>) = (fs', t')"
    and d: "d' = d + 1"
    by (auto simp: getTree_key_def split: option.splits)
  obtain m cs where t: "t = Node m cs" by (cases t)
  from a t obtain i where t': "t' = Node \<lparr>depth = d, chunks = [], nug = Some n\<rparr> []"
    and fs': "fs' = Frame m (take i cs) (drop i cs) # fs"
    by (auto simp: Let_def parse_def)
  have r: "rebuild fs' t' = rebuild fs (Node m (take i cs @ t' # drop i cs))"
    by (simp add: fs')
  have "mset (models (Node m (take i cs @ t' # drop i cs)))
        = mset (models (Node m cs)) + {#\<lparr>depth = d, chunks = [], nug = Some n\<rparr>#}"
  proof -
    have "mset (concat (map models (take i cs))) + mset (concat (map models (drop i cs)))
            = mset (concat (map models cs))"
      by (metis append_take_drop_id concat_append map_append mset_append)
    then show ?thesis by (simp add: t')
  qed
  with mset_models_rebuild[of fs "Node m (take i cs @ t' # drop i cs)" "Node m cs"]
  have "mset (models (rebuild fs' t')) =
          mset (models (rebuild fs t)) + {#\<lparr>depth = d, chunks = [], nug = Some n\<rparr>#}"
    by (simp add: r t)
  moreover have "model (rebuild fs' t') = model (rebuild fs t)"
    unfolding r t by (rule model_rebuild) simp
  ultimately show ?thesis using n None d t' by simp
qed

lemma getTree_key_error:
  "getTree_key al cmp st k = Inl e \<Longrightarrow> e = AssertionError \<and> map_of al k = None"
  by (auto simp: getTree_key_def Let_def split: option.splits)

lemma model_in_models: "model t \<in> set (models t)"
  by (cases t) simp

lemma getTree_key_known:
  assumes wf: "wf_lookup al"
    and K: "\<forall>m\<in>set (models (rebuild fs t)). \<forall>n. nug m = Some n \<longrightarrow> map_of al (nkey n) \<noteq> None"
  shows "case getTree_key al cmp ((fs, t), d) k of
           Inl e \<Rightarrow> e = AssertionError
         | Inr st \<Rightarrow> map_of al k \<noteq> None \<and>
             (\<forall>m\<in>set (models (rebuild (fst (fst st)) (snd (fst st)))).
                \<forall>n. nug m = Some n \<longrightarrow> map_of al (nkey n) \<noteq> None)"
proof (cases "getTree_key al cmp ((fs, t), d) k")
  case (Inl e)
  with getTree_key_error[OF Inl] show ?thesis by simp
next
  case (Inr st)
  obtain fs' t' d' where st: "st = ((fs', t'), d')" by (cases st) auto
  from getTree_key_cases[OF Inr[unfolded st]]
  consider (found) "rebuild fs' t' = rebuild fs t"
      "first (\<lambda>m. mkey m = Some k) fs t = Some (fs', t')"
    | (made) n where "map_of al k = Some n"
      "mset (models (rebuild fs' t')) =
         mset (models (rebuild fs t)) + {#\<lparr>depth = d, chunks = [], nug = Some n\<rparr>#}"
    by auto
  then show ?thesis
  proof cases
    case found
    from first_Some_P(1)[OF found(2)] obtain n where n: "nug (model t') = Some n" "nkey n = k"
      by (auto simp: mkey_def)
    have "model t' \<in> set (models (rebuild fs t))"
      using models_subset_rebuild[of t' fs'] model_in_models[of t'] found(1) by auto
    with K n have "map_of al k \<noteq> None" by auto
    with found(1) K show ?thesis by (simp add: Inr st)
  next
    case made
    from wf made(1) have nk: "nkey n = k"
      by (force simp: wf_lookup_def list_all_iff dest: map_of_SomeD)
    have "set (models (rebuild fs' t')) =
            insert \<lparr>depth = d, chunks = [], nug = Some n\<rparr> (set (models (rebuild fs t)))"
      using arg_cong[OF made(2), of set_mset] by simp
    with K made(1) nk show ?thesis by (auto simp: Inr st)
  qed
qed

lemma getTree_keys_known:
  assumes wf: "wf_lookup al"
    and K: "\<forall>m\<in>set (models (rebuild fs t)). \<forall>n. nug m = Some n \<longrightarrow> map_of al (nkey n) \<noteq> None"
  shows "case getTree_keys al cmp ((fs, t), d) ks of
           Inl e \<Rightarrow> e = AssertionError
         | Inr st \<Rightarrow> (\<forall>k\<in>set ks. map_of al k \<noteq> None) \<and>
             (\<forall>m\<in>set (models (rebuild (fst (fst st)) (snd (fst st)))).
                \<forall>n. nug m = Some n \<longrightarrow> map_of al (nkey n) \<noteq> None)"
  using K
proof (induction ks arbitrary: fs t d)
  case Nil
  then show ?case by simp
next
  case (Cons k ks)
  show ?case
  proof (cases "getTree_key al cmp ((fs, t), d) k")
    case (Inl e)
    with getTree_key_error[OF Inl] show ?thesis by simp
  next
    case (Inr st)
    obtain fs' t' d' where st: "st = ((fs', t'), d')" by (cases st) auto
    from getTree_key_known[OF wf Cons.prems, where cmp=cmp and d=d and k=k] Inr st
    have k: "map_of al k \<noteq> None"
      and K': "\<forall>m\<in>set (models (rebuild fs' t')). \<forall>n. nug m = Some n \<longrightarrow> map_of al (nkey n) \<noteq> None"
      by auto
    from Cons.IH[OF K', where d=d'] k show ?thesis
      by (auto simp: Inr st split: sum.splits)
  qed
qed

lemma getTree_paths_known:
  assumes wf: "wf_lookup al"
    and K: "\<forall>m\<in>set (models root). \<forall>n. nug m = Some n \<longrightarrow> map_of al (nkey n) \<noteq> None"
  shows "case getTree_paths al cmp root cursor of
           Inl e \<Rightarrow> e = AssertionError
         | Inr t \<Rightarrow> (\<forall>keys\<in>set cursor. \<forall>k\<in>set (split_bar keys). map_of al k \<noteq> None)"
  using K
proof (induction cursor arbitrary: root)
  case Nil
  then show ?case by simp
next
  case (Cons keys cursor)
  from getTree_keys_known[OF wf, where fs="[]" and t=root and cmp=cmp and d=1 and ks="split_bar keys"] Cons.prems
  have *: "case getTree_keys al cmp (([], root), 1) (split_bar keys) of
           Inl e \<Rightarrow> e = AssertionError
         | Inr st \<Rightarrow> (\<forall>k\<in>set (split_bar keys). map_of al k \<noteq> None) \<and>
             (\<forall>m\<in>set (models (rebuild (fst (fst st)) (snd (fst st)))).
                \<forall>n. nug m = Some n \<longrightarrow> map_of al (nkey n) \<noteq> None)"
    by simp
  show ?case
  proof (cases "getTree_keys al cmp (([], root), 1) (split_bar keys)")
    case (Inl e)
    with * show ?thesis by (simp add: getTree_path_def)
  next
    case (Inr st)
    with * Cons.IH[where root="rebuild (fst (fst st)) (snd (fst st))"]
    show ?thesis by (auto simp: getTree_path_def split: sum.splits)
  qed
qed

text \<open>
  Claim C5 (a key in a path that the lookup does not have makes the build fail at once, with
  an error of the class \<^verbatim>\<open>ReferenceError\<close>). The build does fail at once, but the error is
  the \<^verbatim>\<open>AssertionError\<close> of \<^verbatim>\<open>assert.ok(nugget)\<close>, which is no \<^verbatim>\<open>ReferenceError\<close>.
\<close>

theorem missing_key_counterexample:
  "getTree ex_seam_cat Nugget_compare [''adit'', ''adit|zz''] = Inl AssertionError
   \<and> getTree ex_seam_cat Nugget_compare [''adit'', ''adit|zz''] \<noteq> Inl ReferenceError"
  by (simp add: getTree_defs ex_seam_alist)

text \<open>
  Claim C5 as amended: with a well-formed lookup, every key of a node of the tree is a key of
  the lookup, so a key that the lookup does not have is never found by \<^verbatim>\<open>first\<close>; the
  build then stops in \<^verbatim>\<open>assert.ok(nugget)\<close>, and the \<^verbatim>\<open>AssertionError\<close> is the result of
  \<^verbatim>\<open>getTree\<close>, whatever the other paths are.
\<close>

theorem missing_key_fails:
  assumes "wf_lookup (allNuggets c)" and "keys \<in> set cursor" and "k \<in> set (split_bar keys)"
    and "map_of (allNuggets c) k = None"
  shows "getTree c cmp cursor = Inl AssertionError"
proof -
  let ?root = "parse \<lparr>depth = 0, chunks = [], nug = map_of (allNuggets c) ''adit''\<rparr>"
  have K: "\<forall>m\<in>set (models ?root). \<forall>n. nug m = Some n \<longrightarrow> map_of (allNuggets c) (nkey n) \<noteq> None"
    using assms(1) by (force simp: parse_def wf_lookup_def list_all_iff dest: map_of_SomeD)
  from getTree_paths_known[OF assms(1) K, where cmp=cmp and cursor=cursor] assms(2-4)
  show ?thesis by (auto simp: getTree_def split: sum.splits)
qed

theorem missing_key_fails_witness:
  "wf_lookup (allNuggets ex_seam_cat) \<and> ''adit|zz'' \<in> set [''adit'', ''adit|zz'']
   \<and> ''zz'' \<in> set (split_bar ''adit|zz'') \<and> map_of (allNuggets ex_seam_cat) ''zz'' = None
   \<and> getTree ex_seam_cat Nugget_compare [''adit'', ''adit|zz''] = Inl AssertionError"
proof -
  have w: "wf_lookup (allNuggets ex_seam_cat)" by (simp add: ex_seam_alist wf_lookup_def)
  have 1: "''adit|zz'' \<in> set [''adit'', ''adit|zz'']" by simp
  have 2: "''zz'' \<in> set (split_bar ''adit|zz'')" by simp
  have 3: "map_of (allNuggets ex_seam_cat) ''zz'' = None" by (simp add: ex_seam_alist)
  from missing_key_fails[OF w 1 2 3] w 1 2 3 show ?thesis by simp
qed

lemma getTree_keys_depths:
  "getTree_keys al cmp ((fs, t), d) ks = Inr ((fs', t'), d') \<Longrightarrow>
   model (rebuild fs' t') = model (rebuild fs t) \<and>
   (\<exists>new. mset (models (rebuild fs' t')) = mset (models (rebuild fs t)) + mset new \<and>
      (\<forall>m\<in>set new. \<exists>i<length ks. \<exists>n. map_of al (ks ! i) = Some n \<and>
                       m = \<lparr>depth = d + i, chunks = [], nug = Some n\<rparr>))"
proof (induction ks arbitrary: fs t d)
  case Nil
  then have "rebuild fs' t' = rebuild fs t" by simp
  then show ?case by (auto intro: exI[of _ "[]"])
next
  case (Cons k ks)
  from Cons.prems obtain st where st: "getTree_key al cmp ((fs, t), d) k = Inr st"
    and rest: "getTree_keys al cmp st ks = Inr ((fs', t'), d')"
    by (auto split: sum.splits)
  obtain fs1 t1 d1 where st1: "st = ((fs1, t1), d1)" by (cases st) auto
  from getTree_key_cases[OF st[unfolded st1]]
  have d1: "d1 = d + 1" and m1: "model (rebuild fs1 t1) = model (rebuild fs t)"
    and c: "rebuild fs1 t1 = rebuild fs t \<or>
        (\<exists>n. map_of al k = Some n \<and>
           mset (models (rebuild fs1 t1)) =
             mset (models (rebuild fs t)) + {#\<lparr>depth = d, chunks = [], nug = Some n\<rparr>#})"
    by auto
  from c obtain new1 where n1: "mset (models (rebuild fs1 t1)) = mset (models (rebuild fs t)) + mset new1"
    and p1: "\<forall>m\<in>set new1. \<exists>n. map_of al k = Some n \<and> m = \<lparr>depth = d, chunks = [], nug = Some n\<rparr>"
  proof
    assume "rebuild fs1 t1 = rebuild fs t"
    then show ?thesis using that[of "[]"] by simp
  next
    assume "\<exists>n. map_of al k = Some n \<and>
           mset (models (rebuild fs1 t1)) =
             mset (models (rebuild fs t)) + {#\<lparr>depth = d, chunks = [], nug = Some n\<rparr>#}"
    then obtain n where "map_of al k = Some n"
      "mset (models (rebuild fs1 t1)) =
             mset (models (rebuild fs t)) + {#\<lparr>depth = d, chunks = [], nug = Some n\<rparr>#}" by auto
    then show ?thesis using that[of "[\<lparr>depth = d, chunks = [], nug = Some n\<rparr>]"] by simp
  qed
  from Cons.IH[OF rest[unfolded st1]] obtain new2 where
    m2: "model (rebuild fs' t') = model (rebuild fs1 t1)"
    and n2: "mset (models (rebuild fs' t')) = mset (models (rebuild fs1 t1)) + mset new2"
    and p2: "\<forall>m\<in>set new2. \<exists>i<length ks. \<exists>n. map_of al (ks ! i) = Some n \<and>
                       m = \<lparr>depth = d1 + i, chunks = [], nug = Some n\<rparr>"
    by auto
  have A: "mset (models (rebuild fs' t')) = mset (models (rebuild fs t)) + mset (new1 @ new2)"
    using n1 n2 by simp
  have B: "\<forall>m\<in>set (new1 @ new2). \<exists>i<length (k # ks). \<exists>n. map_of al ((k # ks) ! i) = Some n \<and>
                       m = \<lparr>depth = d + i, chunks = [], nug = Some n\<rparr>"
  proof
    fix m assume "m \<in> set (new1 @ new2)"
    then consider "m \<in> set new1" | "m \<in> set new2" by auto
    then show "\<exists>i<length (k # ks). \<exists>n. map_of al ((k # ks) ! i) = Some n \<and>
                       m = \<lparr>depth = d + i, chunks = [], nug = Some n\<rparr>"
    proof cases
      case 1
      with p1 show ?thesis by (intro exI[of _ 0]) auto
    next
      case 2
      with p2 obtain i n where "i < length ks" "map_of al (ks ! i) = Some n"
        "m = \<lparr>depth = d1 + i, chunks = [], nug = Some n\<rparr>" by blast
      then show ?thesis using d1 by (intro exI[of _ "Suc i"]) auto
    qed
  qed
  have C: "model (rebuild fs' t') = model (rebuild fs t)" using m1 m2 by simp
  show ?case
  proof (intro conjI exI[of _ "new1 @ new2"])
    show "model (rebuild fs' t') = model (rebuild fs t)" by (rule C)
    show "mset (models (rebuild fs' t')) = mset (models (rebuild fs t)) + mset (new1 @ new2)"
      by (rule A)
    show "\<forall>m\<in>set (new1 @ new2). \<exists>i<length (k # ks). \<exists>n. map_of al ((k # ks) ! i) = Some n \<and>
                       m = \<lparr>depth = d + i, chunks = [], nug = Some n\<rparr>"
      by (rule B)
  qed
qed

lemma getTree_paths_snoc:
  "getTree_paths al cmp root (cursor @ [keys]) =
     (case getTree_paths al cmp root cursor of
        Inl e \<Rightarrow> Inl e
      | Inr r \<Rightarrow> getTree_path al cmp r keys)"
  by (induction cursor arbitrary: root) (auto split: sum.splits)

lemma getTree_path_model:
  "getTree_path al cmp root keys = Inr t \<Longrightarrow> model t = model root"
proof -
  assume a: "getTree_path al cmp root keys = Inr t"
  then obtain fs' t' d' where
    k: "getTree_keys al cmp (([], root), 1) (split_bar keys) = Inr ((fs', t'), d')"
    and t: "t = rebuild fs' t'"
    by (auto simp: getTree_path_def split: sum.splits)
  from getTree_keys_depths[OF k] t show ?thesis by simp
qed

lemma getTree_paths_model:
  "getTree_paths al cmp root cursor = Inr t \<Longrightarrow> model t = model root"
  by (induction cursor arbitrary: root) (auto split: sum.splits dest: getTree_path_model)

text \<open>
  Claim C2 (the root has depth 0, a new node gets the depth of its parent plus 1, a key met
  again keeps its depth). The counter starts at 1 for the first key of a path, and that key is
  the key of the root: a child of the root gets depth 2.
\<close>

theorem root_child_depth_counterexample:
  "getTree ex_depth_cat Nugget_compare [''adit'', ''adit|a''] =
     Inr (Node \<lparr>depth = 0, chunks = [],
                nug = Some \<lparr>nkey = ''adit'', nid = ''passage/adit'', ntype = ''passage'',
                            label = ''Adit'', norder = None, body = None, nuggets = None\<rparr>\<rparr>
            [Node \<lparr>depth = 2, chunks = [],
                   nug = Some \<lparr>nkey = ''a'', nid = ''passage/a'', ntype = ''passage'',
                               label = ''A'', norder = None, body = None, nuggets = None\<rparr>\<rparr> []])"
  by (simp add: getTree_defs ex_depth_alist)


text \<open>
  Claim C2 as amended: the root has depth 0; the nodes of the tree built so far are all kept
  as they are when one more path is processed (so a key reached again keeps the depth of its
  first materialization); and each node materialized for the path carries the position of its
  key in the path, counted from 1, as depth.
\<close>

theorem getTree_depths:
  assumes "getTree c cmp cursor = Inr t1" and "getTree c cmp (cursor @ [keys]) = Inr t2"
  shows "depth (model t1) = 0 \<and> model t2 = model t1 \<and>
         (\<exists>new. mset (models t2) = mset (models t1) + mset new \<and>
            (\<forall>m\<in>set new. \<exists>i<length (split_bar keys). \<exists>n.
                map_of (allNuggets c) (split_bar keys ! i) = Some n \<and>
                m = \<lparr>depth = i + 1, chunks = [], nug = Some n\<rparr>))"
proof -
  from getTree_paths_model[OF assms(1)[unfolded getTree_def]]
  have 0: "depth (model t1) = 0" by (simp add: parse_def)
  from assms have p: "getTree_path (allNuggets c) cmp t1 keys = Inr t2"
    by (simp add: getTree_def getTree_paths_snoc)
  then obtain fs' t' d' where
    k: "getTree_keys (allNuggets c) cmp (([], t1), 1) (split_bar keys) = Inr ((fs', t'), d')"
    and t: "t2 = rebuild fs' t'"
    by (auto simp: getTree_path_def split: sum.splits)
  from getTree_keys_depths[OF k] t 0 show ?thesis by (simp add: add.commute)
qed

theorem getTree_depths_witness:
  "getTree ex_depth_cat Nugget_compare [''adit''] =
     Inr (Node \<lparr>depth = 0, chunks = [], nug = map_of (allNuggets ex_depth_cat) ''adit''\<rparr> [])
   \<and> (\<exists>t2. getTree ex_depth_cat Nugget_compare ([''adit''] @ [''adit|a'']) = Inr t2
        \<and> depth (model t2) = 0
        \<and> (\<exists>new. mset (models t2) =
              {#\<lparr>depth = 0, chunks = [], nug = map_of (allNuggets ex_depth_cat) ''adit''\<rparr>#}
                + mset new
              \<and> list_all (\<lambda>m. depth m = 1 \<or> depth m = 2) new))"
proof -
  let ?t1 = "Node \<lparr>depth = 0, chunks = [], nug = map_of (allNuggets ex_depth_cat) ''adit''\<rparr> []"
  have 1: "getTree ex_depth_cat Nugget_compare [''adit''] = Inr ?t1"
    by (simp add: getTree_defs ex_depth_alist)
  obtain t2 where 2: "getTree ex_depth_cat Nugget_compare ([''adit''] @ [''adit|a'']) = Inr t2"
    by (simp add: getTree_defs ex_depth_alist)
  from getTree_depths[OF 1 2] obtain new where
    m: "model t2 = model ?t1" and n: "mset (models t2) = mset (models ?t1) + mset new"
    and d: "\<forall>m\<in>set new. \<exists>i<length (split_bar ''adit|a''). \<exists>n.
                map_of (allNuggets ex_depth_cat) (split_bar ''adit|a'' ! i) = Some n \<and>
                m = \<lparr>depth = i + 1, chunks = [], nug = Some n\<rparr>"
    by blast
  have "list_all (\<lambda>m. depth m = 1 \<or> depth m = 2) new"
    unfolding list_all_iff
  proof
    fix m assume "m \<in> set new"
    with d obtain i where "i < length (split_bar ''adit|a'')" "depth m = i + 1" by force
    then show "depth m = 1 \<or> depth m = 2" by (cases i) auto
  qed
  with 1 2 m n show ?thesis by auto
qed

lemma getTree_key_made:
  assumes "getTree_key al cmp ((fs, t), d) k = Inr ((fs', t'), d')"
    and "first (\<lambda>m. mkey m = Some k) fs t = None"
  shows "\<exists>n m cs i. map_of al k = Some n \<and> t = Node m cs \<and>
           t' = Node \<lparr>depth = d, chunks = [], nug = Some n\<rparr> [] \<and>
           fs' = Frame m (take i cs) (drop i cs) # fs"
proof -
  from assms obtain n where n: "map_of al k = Some n"
    and a: "addChild cmp (fs, t) (parse \<lparr>depth = d, chunks = [], nug = Some n\<rparr>) = (fs', t')"
    by (auto simp: getTree_key_def split: option.splits)
  obtain m cs where t: "t = Node m cs" by (cases t)
  from a t n show ?thesis by (auto simp: Let_def parse_def)
qed

lemma uniq_children_focus: "uniq_children (rebuild fs s) \<Longrightarrow> uniq_children s"
proof (induction fs arbitrary: s)
  case Nil then show ?case by simp
next
  case (Cons f fs)
  from Cons.IH[of "plug f s"] Cons.prems have "uniq_children (plug f s)" by simp
  then show ?case by (cases f) (simp add: list_all_iff)
qed

lemma uniq_children_replace:
  "uniq_children (rebuild fs s) \<Longrightarrow> model s' = model s \<Longrightarrow> uniq_children s' \<Longrightarrow>
   uniq_children (rebuild fs s')"
proof (induction fs arbitrary: s s')
  case Nil then show ?case by simp
next
  case (Cons f fs)
  from uniq_children_focus[of fs "plug f s"] Cons.prems(1)
  have "uniq_children (plug f s)" by simp
  with Cons.prems(2,3) have "uniq_children (plug f s')" by (cases f) simp
  with Cons.IH[of "plug f s" "plug f s'"] Cons.prems(1) show ?case by simp
qed

lemma distinct_insert_at:
  assumes "distinct (map f cs)" and "f x \<notin> f ` set cs"
  shows "distinct (map f (take i cs @ x # drop i cs))"
proof -
  have "distinct (map f (take i cs @ drop i cs))" using assms(1) by simp
  then have "distinct (map f (take i cs))" "distinct (map f (drop i cs))"
    "f ` set (take i cs) \<inter> f ` set (drop i cs) = {}"
    by (simp_all only: map_append distinct_append set_map)
  moreover have "f x \<notin> f ` set (take i cs)" "f x \<notin> f ` set (drop i cs)"
    using assms(2) set_take_subset[of i cs] set_drop_subset[of i cs] by auto
  ultimately show ?thesis by auto
qed

lemma getTree_key_uniq:
  assumes wf: "wf_lookup al" and u: "uniq_children (rebuild fs t)"
    and st: "getTree_key al cmp ((fs, t), d) k = Inr ((fs', t'), d')"
  shows "uniq_children (rebuild fs' t')"
proof (cases "first (\<lambda>m. mkey m = Some k) fs t")
  case (Some r)
  with st have "r = (fs', t')" by (auto simp: getTree_key_def)
  with first_rebuild(1)[OF Some] u show ?thesis by simp
next
  case None
  from getTree_key_made[OF st None] obtain n m cs i where n: "map_of al k = Some n"
    and t: "t = Node m cs" and t': "t' = Node \<lparr>depth = d, chunks = [], nug = Some n\<rparr> []"
    and fs': "fs' = Frame m (take i cs) (drop i cs) # fs" by blast
  from wf n have nk: "nkey n = k"
    by (force simp: wf_lookup_def list_all_iff dest: map_of_SomeD)
  have us: "uniq_children (Node m cs)" using uniq_children_focus[OF u] t by simp
  have nokey: "mkey (model c) \<noteq> Some k" if "c \<in> set cs" for c
    using first_None(1)[OF None] that model_in_models[of c] by (auto simp: t)
  have kt: "mkey (model t') = Some k" by (simp add: t' mkey_def nk)
  have "mkey (model t') \<notin> (\<lambda>c. mkey (model c)) ` set cs"
    unfolding kt using nokey by force
  with us have "distinct (map (\<lambda>c. mkey (model c)) (take i cs @ t' # drop i cs))"
    by (intro distinct_insert_at) auto
  moreover have "list_all uniq_children (take i cs @ t' # drop i cs)"
    using us set_take_subset[of i cs] set_drop_subset[of i cs]
    by (auto simp: list_all_iff t')
  ultimately have "uniq_children (Node m (take i cs @ t' # drop i cs))" by simp
  from uniq_children_replace[OF u[unfolded t] _ this]
  show ?thesis by (simp add: fs')
qed

lemma getTree_keys_uniq:
  assumes wf: "wf_lookup al"
  shows "uniq_children (rebuild fs t) \<Longrightarrow>
         getTree_keys al cmp ((fs, t), d) ks = Inr ((fs', t'), d') \<Longrightarrow>
         uniq_children (rebuild fs' t')"
proof (induction ks arbitrary: fs t d)
  case Nil then show ?case by simp
next
  case (Cons k ks)
  from Cons.prems(2) obtain st where st: "getTree_key al cmp ((fs, t), d) k = Inr st"
    and rest: "getTree_keys al cmp st ks = Inr ((fs', t'), d')"
    by (auto split: sum.splits)
  obtain fs1 t1 d1 where st1: "st = ((fs1, t1), d1)" by (cases st) auto
  from getTree_key_uniq[OF wf Cons.prems(1) st[unfolded st1]]
  have "uniq_children (rebuild fs1 t1)" .
  from Cons.IH[OF this rest[unfolded st1]] show ?case .
qed

lemma getTree_paths_uniq:
  assumes wf: "wf_lookup al"
  shows "uniq_children root \<Longrightarrow> getTree_paths al cmp root cursor = Inr t \<Longrightarrow> uniq_children t"
proof (induction cursor arbitrary: root)
  case Nil then show ?case by simp
next
  case (Cons keys cursor)
  from Cons.prems(2) obtain fs' t' d' where
    k: "getTree_keys al cmp (([], root), 1) (split_bar keys) = Inr ((fs', t'), d')"
    and r: "getTree_paths al cmp (rebuild fs' t') cursor = Inr t"
    by (auto simp: getTree_path_def split: sum.splits)
  from getTree_keys_uniq[OF wf _ k] Cons.prems(1) have "uniq_children (rebuild fs' t')" by simp
  from Cons.IH[OF this r] show ?case .
qed

lemma unmatched_Nil [simp]: "unmatched P []"
  by (simp add: unmatched_def)

lemma unmatched_append [simp]: "unmatched P (g @ h) \<longleftrightarrow> unmatched P g \<and> unmatched P h"
  by (simp add: unmatched_def)

lemma unmatched_single:
  "unmatched P [Frame m ls rs] \<longleftrightarrow> \<not> P m \<and> (\<forall>l\<in>set ls. \<forall>x\<in>set (models l). \<not> P x)"
  by (simp add: unmatched_def list_all_iff)

lemma first_shape:
  "first P fs t = Some r \<Longrightarrow>
     \<exists>g. fst r = g @ fs \<and> t = rebuild g (snd r) \<and> P (model (snd r)) \<and> unmatched P g"
  "first_in P fs m ls rs = Some r \<Longrightarrow> \<not> P m \<Longrightarrow> \<forall>l\<in>set ls. \<forall>x\<in>set (models l). \<not> P x \<Longrightarrow>
     \<exists>g. fst r = g @ fs \<and> Node m (ls @ rs) = rebuild g (snd r) \<and> P (model (snd r)) \<and> unmatched P g"
proof (induction P fs t and P fs m ls rs arbitrary: r and r rule: first_first_in.induct)
  case (1 P fs m cs)
  show ?case
  proof (cases "P m")
    case True
    with 1(2) have "r = (fs, Node m cs)" by simp
    with True show ?thesis by (intro exI[of _ "[]"]) simp
  next
    case False
    with 1(2) have "first_in P fs m [] cs = Some r" by simp
    from 1(1)[OF False this False] show ?thesis by simp
  qed
next
  case (2 P fs m ls)
  then show ?case by simp
next
  case (3 P fs m ls c rs)
  show ?case
  proof (cases "first P (Frame m ls rs # fs) c")
    case (Some r')
    with 3(3) have r: "r' = r" by simp
    from 3(1)[OF Some[unfolded r]] obtain g where g: "fst r = g @ Frame m ls rs # fs"
      "c = rebuild g (snd r)" "P (model (snd r))" "unmatched P g" by blast
    have "Node m (ls @ c # rs) = rebuild (g @ [Frame m ls rs]) (snd r)"
      using g(2) by (simp add: rebuild_append)
    moreover have "unmatched P (g @ [Frame m ls rs])"
      using g(4) 3(4,5) by (simp add: unmatched_single)
    ultimately show ?thesis using g(1,3) by (intro exI[of _ "g @ [Frame m ls rs]"]) simp
  next
    case None
    with 3(3) have f: "first_in P fs m (ls @ [c]) rs = Some r" by simp
    have "\<forall>l\<in>set (ls @ [c]). \<forall>x\<in>set (models l). \<not> P x"
      using 3(5) first_None(1)[OF None] by auto
    from 3(2)[OF None f 3(4) this] show ?thesis by simp
  qed
qed

lemma first_no_match:
  "\<forall>x\<in>set (models t). \<not> P x \<Longrightarrow> first P fs t = None"
  "\<forall>c\<in>set rs. \<forall>x\<in>set (models c). \<not> P x \<Longrightarrow> first_in P fs m ls rs = None"
  by (induction P fs t and P fs m ls rs rule: first_first_in.induct) auto

lemma first_in_skip:
  "\<forall>l\<in>set ls. \<forall>x\<in>set (models l). \<not> P x \<Longrightarrow>
   first_in P fs m acc (ls @ rest) = first_in P fs m (acc @ ls) rest"
proof (induction ls arbitrary: acc)
  case Nil then show ?case by simp
next
  case (Cons l ls)
  have "first P (Frame m acc (ls @ rest) # fs) l = None"
    using Cons.prems by (intro first_no_match(1)) simp
  with Cons.IH[of "acc @ [l]"] Cons.prems show ?case by simp
qed

lemma first_found:
  "P (model t1) \<Longrightarrow> unmatched P g \<Longrightarrow> first P fs (rebuild g t1) = Some (g @ fs, t1)"
proof (induction g arbitrary: fs rule: rev_induct)
  case Nil
  then show ?case by (cases t1) simp
next
  case (snoc f g)
  obtain m ls rs where f: "f = Frame m ls rs" by (cases f)
  from snoc.prems(2) have u: "unmatched P g" and nm: "\<not> P m"
    and nl: "\<forall>l\<in>set ls. \<forall>x\<in>set (models l). \<not> P x"
    by (simp_all add: f unmatched_single)
  have "first P fs (rebuild (g @ [f]) t1) = first_in P fs m [] (ls @ rebuild g t1 # rs)"
    using nm by (simp add: rebuild_append f)
  also have "\<dots> = first_in P fs m ls (rebuild g t1 # rs)"
    using first_in_skip[OF nl, of fs m "[]"] by simp
  also have "\<dots> = Some (g @ Frame m ls rs # fs, t1)"
    using snoc.IH[OF snoc.prems(1) u, of "Frame m ls rs # fs"] by simp
  finally show ?case by (simp add: f)
qed

text \<open>The frames of the reference only grow along a path, and the node that was current
  keeps its model.\<close>

lemma getTree_key_grow:
  assumes wf: "wf_lookup al"
    and st: "getTree_key al cmp ((fs, t), d) k = Inr ((fs1, t1), d1)"
  shows "d1 = d + 1 \<and> (\<exists>g. fs1 = g @ fs \<and> model (rebuild g t1) = model t \<and>
           mkey (model t1) = Some k \<and> unmatched (\<lambda>m. mkey m = Some k) g)"
proof (cases "first (\<lambda>m. mkey m = Some k) fs t")
  case (Some r)
  with st have r: "r = (fs1, t1)" and d: "d1 = d + 1" by (auto simp: getTree_key_def)
  from first_shape(1)[OF Some] r obtain g where
    "fs1 = g @ fs" "t = rebuild g t1" "mkey (model t1) = Some k"
    "unmatched (\<lambda>m. mkey m = Some k) g" by auto
  with d show ?thesis by auto
next
  case None
  from getTree_key_made[OF st None] obtain n m cs i where n: "map_of al k = Some n"
    and t: "t = Node m cs" and t': "t1 = Node \<lparr>depth = d, chunks = [], nug = Some n\<rparr> []"
    and fs': "fs1 = Frame m (take i cs) (drop i cs) # fs" by blast
  from wf n have nk: "nkey n = k"
    by (force simp: wf_lookup_def list_all_iff dest: map_of_SomeD)
  have d: "d1 = d + 1" using st None by (auto simp: getTree_key_def split: option.splits)
  have nm: "\<forall>x\<in>set (models (Node m cs)). mkey x \<noteq> Some k"
    using first_None(1)[OF None] t by simp
  have "unmatched (\<lambda>m. mkey m = Some k) [Frame m (take i cs) (drop i cs)]"
    unfolding unmatched_single using nm set_take_subset[of i cs] by auto
  moreover have "mkey (model t1) = Some k" by (simp add: t' mkey_def nk)
  ultimately show ?thesis using d fs' t
    by (intro conjI exI[of _ "[Frame m (take i cs) (drop i cs)]"]) simp_all
qed

lemma getTree_keys_grow:
  assumes wf: "wf_lookup al"
  shows "getTree_keys al cmp ((fs, t), d) ks = Inr ((fsn, tn), dn) \<Longrightarrow>
         dn = d + length ks \<and> (\<exists>gs. fsn = gs @ fs \<and> model (rebuild gs tn) = model t)"
proof (induction ks arbitrary: fs t d)
  case Nil
  then show ?case by (intro conjI exI[of _ "[]"]) simp_all
next
  case (Cons k ks)
  from Cons.prems obtain st where st: "getTree_key al cmp ((fs, t), d) k = Inr st"
    and rest: "getTree_keys al cmp st ks = Inr ((fsn, tn), dn)"
    by (auto split: sum.splits)
  obtain fs1 t1 d1 where st1: "st = ((fs1, t1), d1)" by (cases st) auto
  from getTree_key_grow[OF wf st[unfolded st1]] obtain g where
    d1: "d1 = d + 1" and g: "fs1 = g @ fs" "model (rebuild g t1) = model t" by auto
  from Cons.IH[OF rest[unfolded st1]] obtain gs where
    dn: "dn = d1 + length ks" and gs: "fsn = gs @ fs1" "model (rebuild gs tn) = model t1" by auto
  have "model (rebuild (gs @ g) tn) = model t"
    using model_rebuild[OF gs(2), of g] g(2) by (simp add: rebuild_append)
  then show ?case using d1 dn g(1) gs(1) by (intro conjI exI[of _ "gs @ g"]) simp_all
qed

lemma getTree_keys_again:
  assumes wf: "wf_lookup al"
  shows "getTree_keys al cmp ((fs, t), d) (pre @ rest) = Inr ((gs @ fs, tn), dn) \<Longrightarrow>
         \<exists>cur. getTree_keys al cmp ((fs, rebuild gs tn), d) pre = Inr (cur, d + length pre) \<and>
               rebuild (fst cur) (snd cur) = rebuild (gs @ fs) tn"
proof (induction pre arbitrary: fs t d gs)
  case Nil
  show ?case by (simp add: rebuild_append)
next
  case (Cons k pre)
  from Cons.prems obtain st where st: "getTree_key al cmp ((fs, t), d) k = Inr st"
    and run: "getTree_keys al cmp st (pre @ rest) = Inr ((gs @ fs, tn), dn)"
    by (auto split: sum.splits)
  obtain fs1 t1 d1 where st1: "st = ((fs1, t1), d1)" by (cases st) auto
  from getTree_key_grow[OF wf st[unfolded st1]] obtain g where
    d1: "d1 = d + 1" and g: "fs1 = g @ fs" "mkey (model t1) = Some k"
      "unmatched (\<lambda>m. mkey m = Some k) g" by auto
  from getTree_keys_grow[OF wf run[unfolded st1]] obtain gs' where
    gs': "gs @ fs = gs' @ fs1" "model (rebuild gs' tn) = model t1" by auto
  have gsplit: "gs = gs' @ g" using gs'(1) g(1) by simp
  from Cons.IH[OF run[unfolded st1 gs'(1)]] obtain cur where
    c: "getTree_keys al cmp ((fs1, rebuild gs' tn), d1) pre = Inr (cur, d1 + length pre)"
      "rebuild (fst cur) (snd cur) = rebuild (gs' @ fs1) tn" by blast
  have "first (\<lambda>m. mkey m = Some k) fs (rebuild g (rebuild gs' tn)) = Some (g @ fs, rebuild gs' tn)"
    using g(2) gs'(2) by (intro first_found[OF _ g(3)]) simp
  then have "getTree_key al cmp ((fs, rebuild gs tn), d) k = Inr ((fs1, rebuild gs' tn), d1)"
    by (simp add: getTree_key_def gsplit rebuild_append g(1) d1)
  with c gs'(1) d1 show ?case by (intro exI[of _ cur]) simp
qed

text \<open>
  Claim C3 (two paths with a common prefix give exactly one node per key of the prefix; no
  node has two children with the same key). \<^verbatim>\<open>first\<close> looks for the key in the subtree
  of the current node only, so one key can be materialized in several subtrees: here the
  paths \<^verbatim>\<open>adit|b|k\<close> and \<^verbatim>\<open>adit|b|k|c\<close> share the prefix \<open>adit\<close>, \<open>b\<close>, \<open>k\<close>, and the tree
  has two nodes with the key \<open>k\<close>.
\<close>

theorem shared_prefix_counterexample:
  "map_sum id key_depths
     (getTree ex_dup_cat Nugget_compare
        [''adit'', ''adit|k'', ''adit|b'', ''adit|b|k'', ''adit|b|k|c''])
   = Inr [(Some ''adit'', 0), (Some ''b'', 2), (Some ''k'', 3), (Some ''c'', 4), (Some ''k'', 2)]"
  by (simp add: key_depths_def getTree_defs ex_dup_alist)

text \<open>
  Claim C3 as amended, for a well-formed lookup: no node of the built tree has two children
  with the same key; and on the tree as it is after a path, walking any prefix of that path
  again finds every key and materializes nothing (the tree stays the same), while one key may
  still have nodes in different subtrees.
\<close>

theorem getTree_dedup:
  assumes wf: "wf_lookup (allNuggets c)"
    and t: "getTree c cmp (cursor @ [keys]) = Inr t"
    and pre: "split_bar keys = pre @ rest"
  shows "uniq_children t \<and>
         (\<exists>cur d. getTree_keys (allNuggets c) cmp (([], t), 1) pre = Inr (cur, d) \<and>
                  rebuild (fst cur) (snd cur) = t)"
proof -
  from getTree_paths_uniq[OF wf _ t[unfolded getTree_def]]
  have u: "uniq_children t" by (simp add: parse_def)
  from t obtain r where "getTree_path (allNuggets c) cmp r keys = Inr t"
    by (auto simp: getTree_def getTree_paths_snoc split: sum.splits)
  then obtain fsn tn dn where
    k: "getTree_keys (allNuggets c) cmp (([], r), 1) (pre @ rest) = Inr ((fsn, tn), dn)"
    and tt: "t = rebuild fsn tn"
    by (auto simp: getTree_path_def pre split: sum.splits)
  from getTree_keys_again[OF wf, of cmp "[]" r 1 pre rest fsn tn dn] k tt
  show ?thesis using u by auto
qed

theorem getTree_dedup_witness:
  "wf_lookup (allNuggets ex_dup_cat)
   \<and> split_bar ''adit|b|k'' = [''adit'', ''b''] @ [''k'']
   \<and> (\<exists>t. getTree ex_dup_cat Nugget_compare ([''adit'', ''adit|k'', ''adit|b''] @ [''adit|b|k'']) = Inr t
         \<and> uniq_children t
         \<and> (\<exists>cur d. getTree_keys (allNuggets ex_dup_cat) Nugget_compare (([], t), 1) [''adit'', ''b'']
                       = Inr (cur, d) \<and> rebuild (fst cur) (snd cur) = t))"
proof -
  have w: "wf_lookup (allNuggets ex_dup_cat)" by (simp add: ex_dup_alist wf_lookup_def)
  have s: "split_bar ''adit|b|k'' = [''adit'', ''b''] @ [''k'']" by simp
  obtain t where t: "getTree ex_dup_cat Nugget_compare ([''adit'', ''adit|k'', ''adit|b''] @ [''adit|b|k'']) = Inr t"
    by (simp add: getTree_defs ex_dup_alist)
  from getTree_dedup[OF w t s] w s t show ?thesis by blast
qed


subsection \<open>The ordered extraction\<close>













end
